theory Spec2Isabelle
  imports Main "HOL-Library.Sublist"
begin

section \<open>Go reverse proxy: the embedded program\<close>

text \<open>
  Conventions of the embedding.
  \<^item> A Go \<open>time.Time\<close> and a \<open>time.Duration\<close> are integers counting nanoseconds; every
    call of \<open>time.Now()\<close> is an explicit argument \<open>now\<close> of the operation that makes it.
  \<^item> A Go \<open>string\<close> is a byte sequence, here \<open>string\<close> (a \<open>char list\<close>); \<open>len\<close> is
    \<open>length\<close> and \<open>strings.HasPrefix s p\<close> is \<open>prefix p s\<close>.
  \<^item> A Go \<open>int\<close> is modelled as \<open>int\<close>: the counters of this program move by one per call
    and the byte sizes are lengths of slices held in memory, so the 64-bit range is never
    left.
  \<^item> A Go \<open>map[string]T\<close>, and a \<open>map[string]*T\<close> whose entries are each allocated once
    and never shared, is a map \<open>string \<rightharpoonup> T\<close>; writing through the pointer is a map
    update.
  \<^item> Every method runs under its component's mutex, so each operation is one atomic
    state transition; logging is dropped.
\<close>

type_synonym time = int

subsection \<open>circuitbreaker.go\<close>

datatype BreakerState = Closed | Open | HalfOpen

definition FailuresToOpen :: int where
  "FailuresToOpen = 5"

definition OpenCooldown :: int where
  "OpenCooldown = 30 * 1000000000"

record Breaker =
  State :: BreakerState
  Failures :: int
  LastOpenTime :: time
  InFlight :: int

type_synonym CircuitBreakerManager = "string \<rightharpoonup> Breaker"

text \<open>The literal \<open>&Breaker{State: Closed, Failures: 0}\<close>: the other fields are zero.\<close>

definition newBreaker :: Breaker where
  "newBreaker = \<lparr>State = Closed, Failures = 0, LastOpenTime = 0, InFlight = 0\<rparr>"

definition NewCircuitBreakerManager :: CircuitBreakerManager where
  "NewCircuitBreakerManager = Map.empty"

definition AllowRequest :: "CircuitBreakerManager \<Rightarrow> string \<Rightarrow> time \<Rightarrow> bool \<times> CircuitBreakerManager" where
  "AllowRequest cbm serverName now =
     (let breaker = (case cbm serverName of None \<Rightarrow> newBreaker | Some b \<Rightarrow> b);
          cbm1 = (case cbm serverName of None \<Rightarrow> cbm(serverName \<mapsto> breaker) | Some b \<Rightarrow> cbm)
      in case State breaker of
           Closed \<Rightarrow> (True, cbm1)
         | Open \<Rightarrow>
             if now - LastOpenTime breaker \<ge> OpenCooldown
             then (True, cbm1(serverName \<mapsto> breaker\<lparr>State := HalfOpen, InFlight := 0\<rparr>))
             else (False, cbm1)
         | HalfOpen \<Rightarrow>
             if InFlight breaker = 0
             then (True, cbm1(serverName \<mapsto> breaker\<lparr>InFlight := InFlight breaker + 1\<rparr>))
             else (False, cbm1))"

definition OnSuccess :: "CircuitBreakerManager \<Rightarrow> string \<Rightarrow> CircuitBreakerManager" where
  "OnSuccess cbm serverName =
     (case cbm serverName of
        None \<Rightarrow> cbm
      | Some b \<Rightarrow>
          (let breaker = b\<lparr>Failures := 0\<rparr>
           in case State breaker of
                HalfOpen \<Rightarrow> cbm(serverName \<mapsto> breaker\<lparr>State := Closed, InFlight := 0\<rparr>)
              | Open \<Rightarrow> cbm(serverName \<mapsto> breaker)
              | Closed \<Rightarrow> cbm(serverName \<mapsto> breaker)))"

definition OnFailure :: "CircuitBreakerManager \<Rightarrow> string \<Rightarrow> time \<Rightarrow> CircuitBreakerManager" where
  "OnFailure cbm serverName now =
     (let b = (case cbm serverName of None \<Rightarrow> newBreaker | Some b \<Rightarrow> b);
          breaker = b\<lparr>Failures := Failures b + 1\<rparr>
      in case State breaker of
           HalfOpen \<Rightarrow>
             cbm(serverName \<mapsto> breaker\<lparr>State := Open, LastOpenTime := now, InFlight := 0\<rparr>)
         | Closed \<Rightarrow>
             if Failures breaker \<ge> FailuresToOpen
             then cbm(serverName \<mapsto> breaker\<lparr>State := Open, LastOpenTime := now\<rparr>)
             else cbm(serverName \<mapsto> breaker)
         | Open \<Rightarrow> cbm(serverName \<mapsto> breaker))"

definition OnRequestComplete :: "CircuitBreakerManager \<Rightarrow> string \<Rightarrow> CircuitBreakerManager" where
  "OnRequestComplete cbm serverName =
     (case cbm serverName of
        None \<Rightarrow> cbm
      | Some breaker \<Rightarrow>
          if State breaker = HalfOpen \<and> InFlight breaker > 0
          then cbm(serverName \<mapsto> breaker\<lparr>InFlight := InFlight breaker - 1\<rparr>)
          else cbm)"

definition GetBreakerState :: "CircuitBreakerManager \<Rightarrow> string \<Rightarrow> BreakerState" where
  "GetBreakerState cbm serverName =
     (case cbm serverName of None \<Rightarrow> Closed | Some breaker \<Rightarrow> State breaker)"

definition GetBreakerInfo :: "CircuitBreakerManager \<Rightarrow> string \<Rightarrow> Breaker option" where
  "GetBreakerInfo cbm serverName = cbm serverName"

definition RemoveBreaker :: "CircuitBreakerManager \<Rightarrow> string \<Rightarrow> CircuitBreakerManager" where
  "RemoveBreaker cbm serverName = cbm(serverName := None)"

definition ResetBreaker :: "CircuitBreakerManager \<Rightarrow> string \<Rightarrow> CircuitBreakerManager" where
  "ResetBreaker cbm serverName =
     (case cbm serverName of
        None \<Rightarrow> cbm
      | Some breaker \<Rightarrow>
          cbm(serverName \<mapsto> breaker\<lparr>State := Closed, Failures := 0, InFlight := 0\<rparr>))"

text \<open>The in-flight counter of a backend as \<open>GetBreakerInfo\<close> reports it (0 when the
  backend has no breaker).\<close>

definition in_flight_of :: "CircuitBreakerManager \<Rightarrow> string \<Rightarrow> int" where
  "in_flight_of cbm serverName =
     (case GetBreakerInfo cbm serverName of None \<Rightarrow> 0 | Some breaker \<Rightarrow> InFlight breaker)"

text \<open>A run of \<open>AllowRequest\<close> calls, each with the backend it asks about and the time it
  is made at; the answers come back in call order.\<close>

fun AllowRequests :: "CircuitBreakerManager \<Rightarrow> (string \<times> time) list \<Rightarrow> bool list \<times> CircuitBreakerManager" where
  "AllowRequests cbm [] = ([], cbm)"
| "AllowRequests cbm ((n, t) # calls) =
     (let (r, cbm1) = AllowRequest cbm n t;
          (rs, cbm2) = AllowRequests cbm1 calls
      in (r # rs, cbm2))"

text \<open>\<open>OnFailure\<close> called once per time of the list, in order, for one backend.\<close>

definition OnFailures :: "CircuitBreakerManager \<Rightarrow> string \<Rightarrow> time list \<Rightarrow> CircuitBreakerManager" where
  "OnFailures cbm serverName ts = fold (\<lambda>t c. OnFailure c serverName t) ts cbm"

text \<open>The starting point "Closed with failure count 0": the backend has no breaker yet
  (it is created Closed with 0 failures on first use) or has one in that state.\<close>

definition fresh_closed :: "CircuitBreakerManager \<Rightarrow> string \<Rightarrow> bool" where
  "fresh_closed cbm serverName =
     (case cbm serverName of None \<Rightarrow> True | Some b \<Rightarrow> State b = Closed \<and> Failures b = 0)"

subsection \<open>health.go\<close>

definition UnhealthyThreshold :: int where
  "UnhealthyThreshold = 3"

record HealthStatus =
  isHealthy :: bool
  lastChecked :: time
  consecutiveFailures :: int
  lastResponseTime :: int

type_synonym HealthMap = "string \<rightharpoonup> HealthStatus"

definition NewHealthMonitor :: HealthMap where
  "NewHealthMonitor = Map.empty"

text \<open>\<open>&HealthStatus{IsHealthy: false, ConsecutiveFailures: 0}\<close>, the record a first probe
  creates.\<close>

definition newHealthStatus :: HealthStatus where
  "newHealthStatus =
     \<lparr>isHealthy = False, lastChecked = 0, consecutiveFailures = 0, lastResponseTime = 0\<rparr>"

definition updateHealthStatus :: "HealthMap \<Rightarrow> string \<Rightarrow> bool \<Rightarrow> int \<Rightarrow> time \<Rightarrow> HealthMap" where
  "updateHealthStatus hm serverName ok responseTime now =
     (let status0 = (case hm serverName of None \<Rightarrow> newHealthStatus | Some s \<Rightarrow> s);
          status = status0\<lparr>lastChecked := now, lastResponseTime := responseTime\<rparr>
      in if ok
         then hm(serverName \<mapsto> status\<lparr>consecutiveFailures := 0, isHealthy := True\<rparr>)
         else
           (let failed = status\<lparr>consecutiveFailures := consecutiveFailures status + 1\<rparr>
            in if consecutiveFailures failed \<ge> UnhealthyThreshold
               then hm(serverName \<mapsto> failed\<lparr>isHealthy := False\<rparr>)
               else hm(serverName \<mapsto> failed)))"

definition IsHealthy :: "HealthMap \<Rightarrow> string \<Rightarrow> bool" where
  "IsHealthy hm serverName =
     (case hm serverName of None \<Rightarrow> False | Some status \<Rightarrow> isHealthy status)"

definition GetHealthStatus :: "HealthMap \<Rightarrow> string \<Rightarrow> HealthStatus option" where
  "GetHealthStatus hm serverName = hm serverName"

text \<open>What one probe of \<open>checkServerHealth\<close> observes: the request could not be built or
  sent, or a response came back with a status code.\<close>

datatype probe_result = ProbeError | ProbeStatus int

fun probe_ok :: "probe_result \<Rightarrow> bool" where
  "probe_ok ProbeError = False"
| "probe_ok (ProbeStatus code) = (code \<ge> 200 \<and> code < 300)"

definition checkServerHealth :: "HealthMap \<Rightarrow> string \<Rightarrow> probe_result \<Rightarrow> int \<Rightarrow> time \<Rightarrow> HealthMap" where
  "checkServerHealth hm serverName res responseTime now =
     updateHealthStatus hm serverName (probe_ok res) responseTime now"

text \<open>The probes of one backend, one after the other: each entry is the probe's result,
  its response time and the time the status is written.\<close>

definition probes :: "HealthMap \<Rightarrow> string \<Rightarrow> (probe_result \<times> int \<times> time) list \<Rightarrow> HealthMap" where
  "probes hm serverName ps =
     fold (\<lambda>(res, rt, now) h. checkServerHealth h serverName res rt now) ps hm"

definition failures_of :: "HealthMap \<Rightarrow> string \<Rightarrow> int" where
  "failures_of hm serverName =
     (case GetHealthStatus hm serverName of None \<Rightarrow> 0 | Some s \<Rightarrow> consecutiveFailures s)"

subsection \<open>registry.go\<close>

record Server =
  Name :: string
  BaseURL :: string
  Prefixes :: "string list"
  RegisteredAt :: time

type_synonym Registry = "string \<rightharpoonup> Server"

datatype registry_error = AlreadyRegistered string | DoesNotExist string

definition NewRegistry :: Registry where
  "NewRegistry = Map.empty"

definition Register :: "Registry \<Rightarrow> Server \<Rightarrow> registry_error + Registry" where
  "Register r s =
     (case r (Name s) of
        Some x \<Rightarrow> Inl (AlreadyRegistered (Name s))
      | None \<Rightarrow> Inr (r(Name s \<mapsto> s)))"

definition Deregister :: "Registry \<Rightarrow> string \<Rightarrow> registry_error + Registry" where
  "Deregister r name =
     (case r name of
        None \<Rightarrow> Inl (DoesNotExist name)
      | Some x \<Rightarrow> Inr (r(name := None)))"

text \<open>
  A \<open>for _, server := range r.servers\<close> loop visits every entry of the Go map once, in an
  order the language leaves unspecified and the runtime changes from one loop to the
  next. The order a loop takes is an argument of the model: a list of the map's keys.
  \<open>range_servers\<close> gives the servers in the order visited.
\<close>

definition iteration_order :: "Registry \<Rightarrow> string list \<Rightarrow> bool" where
  "iteration_order r ks = (distinct ks \<and> set ks = dom r)"

definition range_servers :: "Registry \<Rightarrow> string list \<Rightarrow> Server list" where
  "range_servers r ks = List.map_filter r ks"

definition ListRegistered :: "Registry \<Rightarrow> string list \<Rightarrow> Server list" where
  "ListRegistered r ks = range_servers r ks"

text \<open>First pass of \<open>ServersForPath\<close>: the inner loop over one server's prefixes, then the
  outer loop over the servers, carrying \<open>longestPrefix\<close>.\<close>

fun longest_in_prefixes :: "string \<Rightarrow> string list \<Rightarrow> string \<Rightarrow> string" where
  "longest_in_prefixes requestPath [] longestPrefix = longestPrefix"
| "longest_in_prefixes requestPath (p # ps) longestPrefix =
     longest_in_prefixes requestPath ps
       (if prefix p requestPath \<and> length p > length longestPrefix then p else longestPrefix)"

fun longest_in_servers :: "string \<Rightarrow> Server list \<Rightarrow> string \<Rightarrow> string" where
  "longest_in_servers requestPath [] longestPrefix = longestPrefix"
| "longest_in_servers requestPath (s # ss) longestPrefix =
     longest_in_servers requestPath ss (longest_in_prefixes requestPath (Prefixes s) longestPrefix)"

text \<open>Second pass: the inner loop stops at the first prefix equal to \<open>longestPrefix\<close>
  (\<open>break\<close>), so a server is appended at most once.\<close>

fun has_prefix_entry :: "string list \<Rightarrow> string \<Rightarrow> bool" where
  "has_prefix_entry [] longestPrefix = False"
| "has_prefix_entry (p # ps) longestPrefix =
     (if p = longestPrefix then True else has_prefix_entry ps longestPrefix)"

fun collect_servers :: "Server list \<Rightarrow> string \<Rightarrow> Server list" where
  "collect_servers [] longestPrefix = []"
| "collect_servers (s # ss) longestPrefix =
     (if has_prefix_entry (Prefixes s) longestPrefix
      then s # collect_servers ss longestPrefix
      else collect_servers ss longestPrefix)"

text \<open>\<open>ks1\<close> and \<open>ks2\<close> are the orders of the first and of the second loop over the map.\<close>

definition ServersForPath :: "Registry \<Rightarrow> string list \<Rightarrow> string list \<Rightarrow> string \<Rightarrow> string \<times> Server list \<times> bool" where
  "ServersForPath r ks1 ks2 requestPath =
     (let longestPrefix = longest_in_servers requestPath (range_servers r ks1) [];
          matchingServers =
            (if longestPrefix \<noteq> [] then collect_servers (range_servers r ks2) longestPrefix else [])
      in (longestPrefix, matchingServers, length matchingServers > 0))"

text \<open>
  The PostgreSQL-backed registry implements the same interface. Its \<open>ServersForPath\<close>
  runs the query \<open>GetAllServices\<close> (\<open>SELECT * FROM services ORDER BY name\<close>) once and then
  the same two passes over the rows it got. \<open>None\<close> is a failed query, \<open>Some rows\<close> the
  rows in the order of the result, each already converted to a \<open>Server\<close>.
\<close>

definition ServersForPath_pg :: "Server list option \<Rightarrow> string \<Rightarrow> string \<times> Server list \<times> bool" where
  "ServersForPath_pg services requestPath =
     (case services of
        None \<Rightarrow> ([], [], False)
      | Some rows \<Rightarrow>
          (let longestPrefix = longest_in_servers requestPath rows [];
               matchingServers =
                 (if longestPrefix \<noteq> [] then collect_servers rows longestPrefix else [])
           in (longestPrefix, matchingServers, length matchingServers > 0)))"

text \<open>The prefixes the registry holds, and those among them that match a path.\<close>

definition registered_prefixes :: "Registry \<Rightarrow> string set" where
  "registered_prefixes r = (\<Union>s \<in> ran r. set (Prefixes s))"

definition matching_prefixes :: "Registry \<Rightarrow> string \<Rightarrow> string set" where
  "matching_prefixes r requestPath = {p \<in> registered_prefixes r. prefix p requestPath}"
subsection \<open>cache.go\<close>

text \<open>
  The cache is a hash index from keys to \<open>*Node\<close> and a doubly linked list threaded
  through the nodes' \<open>prev\<close> and \<open>next\<close> pointers. The model keeps the pointers: a
  \<open>*Node\<close> is \<open>None\<close> (nil) or \<open>Some a\<close> for an address \<open>a\<close>, and \<open>store\<close> gives the node at
  every address. \<open>&Node{...}\<close> takes the address \<open>fresh\<close> and increments it, so a new node
  never aliases an old one. The fields \<open>next\<close> and \<open>value\<close> are written \<open>nxt\<close> and \<open>val\<close>.
  A \<open>[]byte\<close> is a list of bytes and is copied by value.
\<close>

type_synonym addr = nat
type_synonym bytes = "char list"

record Node =
  key :: string
  val :: bytes
  sizeBytes :: int
  expiresAt :: time
  prev :: "addr option"
  nxt :: "addr option"

record ResponseCache =
  store :: "addr \<Rightarrow> Node"
  fresh :: addr
  items :: "string \<rightharpoonup> addr"
  head :: "addr option"
  tail :: "addr option"
  maxBytes :: int
  usedBytes :: int
  ttl :: int

definition zeroNode :: Node where
  "zeroNode = \<lparr>key = [], val = [], sizeBytes = 0, expiresAt = 0, prev = None, nxt = None\<rparr>"

definition NewResponseCache :: "int \<Rightarrow> int \<Rightarrow> ResponseCache" where
  "NewResponseCache ttl0 maxBytes0 =
     \<lparr>store = (\<lambda>a. zeroNode), fresh = 0, items = Map.empty, head = None, tail = None,
      maxBytes = maxBytes0, usedBytes = 0, ttl = ttl0\<rparr>"

definition nodeOverhead :: int where
  "nodeOverhead = 64"

definition approximateSize :: "string \<Rightarrow> bytes \<Rightarrow> int" where
  "approximateSize k v = int (length k) + int (length v) + nodeOverhead"

definition detachNode :: "ResponseCache \<Rightarrow> addr \<Rightarrow> ResponseCache" where
  "detachNode rc node =
     (let rc1 = (case prev (store rc node) of
                   Some p \<Rightarrow> rc\<lparr>store := (store rc)(p := (store rc p)\<lparr>nxt := nxt (store rc node)\<rparr>)\<rparr>
                 | None \<Rightarrow> rc\<lparr>head := nxt (store rc node)\<rparr>)
      in case nxt (store rc1 node) of
           Some n \<Rightarrow> rc1\<lparr>store := (store rc1)(n := (store rc1 n)\<lparr>prev := prev (store rc1 node)\<rparr>)\<rparr>
         | None \<Rightarrow> rc1\<lparr>tail := prev (store rc1 node)\<rparr>)"

definition insertAtHead :: "ResponseCache \<Rightarrow> addr \<Rightarrow> ResponseCache" where
  "insertAtHead rc node =
     (let rc1 = rc\<lparr>store := (store rc)(node := (store rc node)\<lparr>prev := None, nxt := head rc\<rparr>)\<rparr>;
          rc2 = (case head rc1 of
                   Some h \<Rightarrow> rc1\<lparr>store := (store rc1)(h := (store rc1 h)\<lparr>prev := Some node\<rparr>)\<rparr>
                 | None \<Rightarrow> rc1);
          rc3 = rc2\<lparr>head := Some node\<rparr>
      in if tail rc3 = None then rc3\<lparr>tail := Some node\<rparr> else rc3)"

definition moveToHead :: "ResponseCache \<Rightarrow> addr \<Rightarrow> ResponseCache" where
  "moveToHead rc node =
     (if Some node = head rc then rc else insertAtHead (detachNode rc node) node)"

text \<open>\<open>Get\<close>: \<open>(nil, false)\<close> is \<open>None\<close>, \<open>(valueCopy, true)\<close> is \<open>Some valueCopy\<close>.\<close>

definition Get :: "ResponseCache \<Rightarrow> string \<Rightarrow> time \<Rightarrow> bytes option \<times> ResponseCache" where
  "Get rc k now =
     (case items rc k of
        None \<Rightarrow> (None, rc)
      | Some node \<Rightarrow>
          if now > expiresAt (store rc node)
          then
            (let rc1 = detachNode rc node;
                 rc2 = rc1\<lparr>items := (items rc1)(k := None)\<rparr>;
                 rc3 = rc2\<lparr>usedBytes := usedBytes rc2 - sizeBytes (store rc2 node)\<rparr>
             in (None, rc3))
          else
            (let rc1 = moveToHead rc node
             in (Some (val (store rc1 node)), rc1)))"

text \<open>One turn of the loop of \<open>evictToCapacity\<close>, for the tail node \<open>evictNode\<close>.\<close>

definition evictNode_step :: "ResponseCache \<Rightarrow> addr \<Rightarrow> ResponseCache" where
  "evictNode_step rc evictNode =
     (let rc1 = detachNode rc evictNode;
          rc2 = rc1\<lparr>items := (items rc1)(key (store rc1 evictNode) := None)\<rparr>
      in rc2\<lparr>usedBytes := usedBytes rc2 - sizeBytes (store rc2 evictNode)\<rparr>)"

text \<open>The loop \<open>for rc.usedBytes > rc.maxBytes && rc.tail != nil\<close>. On a list whose
  pointers are broken it need not end, so the result is an option and \<open>None\<close> stands for
  a loop that never returns.\<close>

partial_function (option) evictToCapacity :: "ResponseCache \<Rightarrow> ResponseCache option" where
  "evictToCapacity rc =
     (if usedBytes rc > maxBytes rc
      then (case tail rc of
              None \<Rightarrow> Some rc
            | Some evictNode \<Rightarrow> evictToCapacity (evictNode_step rc evictNode))
      else Some rc)"

text \<open>
  \<open>cleanupExpired\<close>, the body of the periodic sweep: the loop walks from \<open>tail\<close> along the
  \<open>prev\<close> pointers, reading \<open>current.prev\<close> before it removes \<open>current\<close>. The removal is
  the same three statements as in \<open>evictToCapacity\<close>. As for that loop, \<open>None\<close> stands for
  a walk that never ends.
\<close>

partial_function (option) cleanup_from :: "ResponseCache \<Rightarrow> time \<Rightarrow> addr option \<Rightarrow> ResponseCache option" where
  "cleanup_from rc now current =
     (case current of
        None \<Rightarrow> Some rc
      | Some c \<Rightarrow>
          (let p = prev (store rc c)
           in if now > expiresAt (store rc c)
              then cleanup_from (evictNode_step rc c) now p
              else cleanup_from rc now p))"

definition cleanupExpired :: "ResponseCache \<Rightarrow> time \<Rightarrow> ResponseCache option" where
  "cleanupExpired rc now = cleanup_from rc now (tail rc)"

text \<open>\<open>Store\<close> up to the call of \<open>evictToCapacity\<close>.\<close>

definition Store_put :: "ResponseCache \<Rightarrow> string \<Rightarrow> bytes \<Rightarrow> time \<Rightarrow> ResponseCache" where
  "Store_put rc k v now =
     (let size = approximateSize k v
      in case items rc k of
           Some existingNode \<Rightarrow>
             (let rc1 = rc\<lparr>usedBytes := usedBytes rc - sizeBytes (store rc existingNode)\<rparr>;
                  rc2 = rc1\<lparr>store := (store rc1)(existingNode :=
                          (store rc1 existingNode)\<lparr>val := v, sizeBytes := size,
                                                    expiresAt := now + ttl rc1\<rparr>)\<rparr>;
                  rc3 = moveToHead rc2 existingNode
              in rc3\<lparr>usedBytes := usedBytes rc3 + size\<rparr>)
         | None \<Rightarrow>
             (let newNode = fresh rc;
                  rc1 = rc\<lparr>store := (store rc)(newNode :=
                          \<lparr>key = k, val = v, sizeBytes = size, expiresAt = now + ttl rc,
                           prev = None, nxt = None\<rparr>),
                        fresh := fresh rc + 1\<rparr>;
                  rc2 = rc1\<lparr>items := (items rc1)(k \<mapsto> newNode)\<rparr>;
                  rc3 = insertAtHead rc2 newNode
              in rc3\<lparr>usedBytes := usedBytes rc3 + size\<rparr>))"

definition Store :: "ResponseCache \<Rightarrow> string \<Rightarrow> bytes \<Rightarrow> time \<Rightarrow> ResponseCache option" where
  "Store rc k v now = evictToCapacity (Store_put rc k v now)"

text \<open>A sequence of \<open>Store\<close> and \<open>Get\<close> calls and of sweeps, each with the time it is made
  at. The three operations take the cache's mutex, so they run one after the other.\<close>

datatype cache_op = OpStore string bytes time | OpGet string time | OpCleanup time

fun run_ops :: "ResponseCache \<Rightarrow> cache_op list \<Rightarrow> ResponseCache option" where
  "run_ops rc [] = Some rc"
| "run_ops rc (OpStore k v now # ops) =
     (case Store rc k v now of None \<Rightarrow> None | Some rc' \<Rightarrow> run_ops rc' ops)"
| "run_ops rc (OpGet k now # ops) = run_ops (snd (Get rc k now)) ops"
| "run_ops rc (OpCleanup now # ops) =
     (case cleanupExpired rc now of None \<Rightarrow> None | Some rc' \<Rightarrow> run_ops rc' ops)"

fun is_store :: "cache_op \<Rightarrow> bool" where
  "is_store (OpStore k v now) = True"
| "is_store (OpGet k now) = False"
| "is_store (OpCleanup now) = False"

text \<open>
  Observations of a cache state. \<open>recency_list\<close> follows the \<open>next\<close> pointers from \<open>head\<close>
  (at most \<open>fresh\<close> steps: no more nodes were ever allocated) and gives the addresses from
  most to least recently used; \<open>recency_keys\<close> gives their keys. \<open>live_cost\<close> is the sum,
  over the keys of the hash index, of \<open>len(key) + len(value) + overhead\<close> of the entry.
\<close>

fun walk :: "(addr \<Rightarrow> Node) \<Rightarrow> addr option \<Rightarrow> nat \<Rightarrow> addr list" where
  "walk h None n = []"
| "walk h (Some a) 0 = []"
| "walk h (Some a) (Suc n) = a # walk h (nxt (h a)) n"

definition recency_list :: "ResponseCache \<Rightarrow> addr list" where
  "recency_list rc = walk (store rc) (head rc) (fresh rc)"

definition recency_keys :: "ResponseCache \<Rightarrow> string list" where
  "recency_keys rc = map (\<lambda>a. key (store rc a)) (recency_list rc)"

text \<open>What the hash index holds under a key, whatever the node's deadline: the value of
  the node, or nothing.\<close>

definition peek :: "ResponseCache \<Rightarrow> string \<Rightarrow> bytes option" where
  "peek rc k = (case items rc k of None \<Rightarrow> None | Some node \<Rightarrow> Some (val (store rc node)))"

definition live_cost :: "ResponseCache \<Rightarrow> int" where
  "live_cost rc =
     (\<Sum>k \<in> dom (items rc). approximateSize k (val (store rc (the (items rc k)))))"

subsection \<open>The recency list as a list: invariant and abstraction\<close>

text \<open>
  \<open>dseg h pr p xs lst nx\<close>: starting at pointer \<open>p\<close>, whose predecessor pointer is \<open>pr\<close>,
  the \<open>next\<close> pointers run through exactly the addresses \<open>xs\<close> and arrive at \<open>nx\<close>; every
  \<open>prev\<close> pointer points one step back; \<open>lst\<close> is the pointer to the last node (\<open>pr\<close> when
  \<open>xs\<close> is empty).
\<close>

fun dseg :: "(addr \<Rightarrow> Node) \<Rightarrow> addr option \<Rightarrow> addr option \<Rightarrow> addr list \<Rightarrow> addr option \<Rightarrow> addr option \<Rightarrow> bool" where
  "dseg h pr p [] lst nx = (p = nx \<and> lst = pr)"
| "dseg h pr p (a # as) lst nx = (p = Some a \<and> prev (h a) = pr \<and> dseg h (Some a) (nxt (h a)) as lst nx)"

text \<open>
  \<open>cache_rel rc xs\<close>: the list from \<open>head\<close> to \<open>tail\<close> is \<open>xs\<close>, without repetition; the hash
  index holds exactly the nodes of the list, each under its own key; every node's
  \<open>sizeBytes\<close> is the cost of its key and value; \<open>usedBytes\<close> is the sum of the sizes.
\<close>

definition cache_rel :: "ResponseCache \<Rightarrow> addr list \<Rightarrow> bool" where
  "cache_rel rc xs =
     (dseg (store rc) None (head rc) xs (tail rc) None \<and> distinct xs \<and>
      (\<forall>a \<in> set xs. a < fresh rc \<and> items rc (key (store rc a)) = Some a \<and>
          sizeBytes (store rc a) = approximateSize (key (store rc a)) (val (store rc a))) \<and>
      (\<forall>k a. items rc k = Some a \<longrightarrow> a \<in> set xs \<and> key (store rc a) = k) \<and>
      usedBytes rc = sum_list (map (\<lambda>a. sizeBytes (store rc a)) xs))"

definition cache_inv :: "ResponseCache \<Rightarrow> bool" where
  "cache_inv rc = cache_rel rc (recency_list rc)"

text \<open>The entries of the cache from most to least recently used: key, value, deadline.\<close>

type_synonym entry = "string \<times> bytes \<times> time"

definition entry_of :: "ResponseCache \<Rightarrow> addr \<Rightarrow> entry" where
  "entry_of rc a = (key (store rc a), val (store rc a), expiresAt (store rc a))"

definition entries :: "ResponseCache \<Rightarrow> entry list" where
  "entries rc = map (entry_of rc) (recency_list rc)"

text \<open>
  The same operations on the list of entries, written from what an LRU list with
  deadlines does: these are what the pointer operations are compared with.
\<close>

fun e_cost :: "entry \<Rightarrow> int" where
  "e_cost (k, v, t) = approximateSize k v"

definition total_cost :: "entry list \<Rightarrow> int" where
  "total_cost es = sum_list (map e_cost es)"

function lru_evict :: "int \<Rightarrow> entry list \<Rightarrow> entry list" where
  "lru_evict mb es = (if total_cost es > mb \<and> es \<noteq> [] then lru_evict mb (butlast es) else es)"
  by pat_completeness auto
termination
  by (relation "measure (\<lambda>(mb, es). length es)") auto

declare lru_evict.simps [simp del]

definition lru_put :: "entry list \<Rightarrow> string \<Rightarrow> bytes \<Rightarrow> time \<Rightarrow> entry list" where
  "lru_put es k v deadline = (k, v, deadline) # filter (\<lambda>e. fst e \<noteq> k) es"

definition lru_store :: "int \<Rightarrow> entry list \<Rightarrow> string \<Rightarrow> bytes \<Rightarrow> time \<Rightarrow> entry list" where
  "lru_store mb es k v deadline = lru_evict mb (lru_put es k v deadline)"

definition lru_sweep :: "entry list \<Rightarrow> time \<Rightarrow> entry list" where
  "lru_sweep es now = filter (\<lambda>(k, v, deadline). \<not> now > deadline) es"

definition lru_get :: "entry list \<Rightarrow> string \<Rightarrow> time \<Rightarrow> bytes option \<times> entry list" where
  "lru_get es k now =
     (case find (\<lambda>e. fst e = k) es of
        None \<Rightarrow> (None, es)
      | Some (k', v, deadline) \<Rightarrow>
          if now > deadline
          then (None, filter (\<lambda>e. fst e \<noteq> k) es)
          else (Some v, (k', v, deadline) # filter (\<lambda>e. fst e \<noteq> k) es))"

text \<open>The two branches of \<open>Store_put\<close> before the list is touched: the node's fields, the
  index and the counter as they are once the branch is done.\<close>

definition put_existing :: "ResponseCache \<Rightarrow> addr \<Rightarrow> bytes \<Rightarrow> time \<Rightarrow> ResponseCache" where
  "put_existing rc a v now =
     rc\<lparr>store := (store rc)(a := (store rc a)\<lparr>val := v,
            sizeBytes := approximateSize (key (store rc a)) v, expiresAt := now + ttl rc\<rparr>),
        usedBytes := usedBytes rc - sizeBytes (store rc a) + approximateSize (key (store rc a)) v\<rparr>"

definition put_new :: "ResponseCache \<Rightarrow> string \<Rightarrow> bytes \<Rightarrow> time \<Rightarrow> ResponseCache" where
  "put_new rc k v now =
     rc\<lparr>store := (store rc)(fresh rc :=
            \<lparr>key = k, val = v, sizeBytes = approximateSize k v, expiresAt = now + ttl rc,
             prev = None, nxt = None\<rparr>),
        fresh := fresh rc + 1,
        items := (items rc)(k \<mapsto> fresh rc),
        usedBytes := usedBytes rc + approximateSize k v\<rparr>"

subsection \<open>router.go\<close>

text \<open>
  The application state the router and the handlers work on: the components of
  \<open>Application\<close> that hold data, and the router's \<open>roundRobinIndex\<close>. The field \<open>Registry\<close> is
  an interface in the source; here it is the in-memory registry of \<open>registry.go\<close>, the one
  \<open>NewApplication\<close> builds and \<open>main\<close> falls back to. With the PostgreSQL registry the
  router sees what it sees here when both loops take the rows' order.
\<close>

record Application =
  Cache :: ResponseCache
  Registry :: Registry
  HealthMonitor :: HealthMap
  CircuitBreaker :: CircuitBreakerManager
  roundRobinIndex :: "string \<rightharpoonup> int"

record BackendInfo =
  Server :: Server
  TargetURL :: string
  Prefix :: string

text \<open>The two errors of \<open>ResolveBackend\<close>, and the run-time panic of an index outside the
  slice.\<close>

datatype route_error = no_route | no_healthy_backends | index_out_of_range

text \<open>Go's \<open>%\<close> truncates toward zero: the result has the sign of the dividend.\<close>

definition go_rem :: "int \<Rightarrow> int \<Rightarrow> int" where
  "go_rem a n = (if a \<ge> 0 then a mod n else - ((- a) mod n))"

definition TrimPrefix :: "string \<Rightarrow> string \<Rightarrow> string" where
  "TrimPrefix s p = (if prefix p s then drop (length p) s else s)"

text \<open>
  Step 2 of \<open>ResolveBackend\<close>, the loop over the candidates. For every candidate both
  \<open>IsHealthy\<close> and \<open>AllowRequest\<close> are called (there is no short-circuit), so the breaker
  of every candidate is touched, chosen or not. \<open>clock i\<close> is the time at which
  \<open>AllowRequest\<close> runs for the candidate at position \<open>i\<close>.
\<close>

fun filter_eligible :: "HealthMap \<Rightarrow> CircuitBreakerManager \<Rightarrow> (nat \<Rightarrow> time) \<Rightarrow> nat \<Rightarrow> Server list \<Rightarrow> Server list \<times> CircuitBreakerManager" where
  "filter_eligible hm cbm clock i [] = ([], cbm)"
| "filter_eligible hm cbm clock i (server # rest) =
     (let isHealthy = IsHealthy hm (Name server);
          (allowedByBreaker, cbm1) = AllowRequest cbm (Name server) (clock i);
          (healthyServers, cbm2) = filter_eligible hm cbm1 clock (Suc i) rest
      in (if isHealthy \<and> allowedByBreaker then server # healthyServers else healthyServers, cbm2))"

text \<open>Reading \<open>rr.roundRobinIndex[prefix]\<close>: a key the map does not hold reads as 0.\<close>

definition counter_of :: "Application \<Rightarrow> string \<Rightarrow> int" where
  "counter_of app pfx = (case roundRobinIndex app pfx of None \<Rightarrow> 0 | Some c \<Rightarrow> c)"

text \<open>\<open>ks1\<close> and \<open>ks2\<close> are the orders in which the two loops of \<open>ServersForPath\<close> visit the
  registry's map during this call. The counter is an unbounded integer; the Go counter
  would wrap after \<open>2^63\<close> increments for one prefix, and the index after that would be
  negative, which is the branch \<open>index_out_of_range\<close>.\<close>

definition ResolveBackend :: "Application \<Rightarrow> string list \<Rightarrow> string list \<Rightarrow> (nat \<Rightarrow> time) \<Rightarrow> string \<Rightarrow> (route_error + BackendInfo) \<times> Application" where
  "ResolveBackend app ks1 ks2 clock requestPath =
     (let (pfx, candidates, found) = ServersForPath (Registry app) ks1 ks2 requestPath
      in if pfx = [] \<or> \<not> found \<or> length candidates = 0 then (Inl no_route, app)
         else
           (let (healthyServers, cbm) =
                  filter_eligible (HealthMonitor app) (CircuitBreaker app) clock 0 candidates;
                app1 = app\<lparr>CircuitBreaker := cbm\<rparr>
            in if length healthyServers = 0 then (Inl no_healthy_backends, app1)
               else
                 (let index = go_rem (counter_of app1 pfx) (int (length healthyServers));
                      app2 = app1\<lparr>roundRobinIndex :=
                               (roundRobinIndex app1)(pfx \<mapsto> counter_of app1 pfx + 1)\<rparr>
                  in if index < 0 \<or> nat index \<ge> length healthyServers
                     then (Inl index_out_of_range, app2)
                     else
                       (let chosen = healthyServers ! nat index;
                            targetURL = BaseURL chosen @ TrimPrefix requestPath pfx
                        in (Inr \<lparr>Server = chosen, TargetURL = targetURL, Prefix = pfx\<rparr>, app2)))))"

text \<open>The name of the backend a resolution chose, if it chose one.\<close>

definition chosen_name :: "(route_error + BackendInfo) \<times> Application \<Rightarrow> string option" where
  "chosen_name r = (case fst r of Inl e \<Rightarrow> None | Inr info \<Rightarrow> Some (Name (Server info)))"

text \<open>Successive calls of \<open>ResolveBackend\<close> for one path, each with the iteration orders
  and the clock of its own; the result lists the backend each call chose.\<close>

fun resolve_seq :: "Application \<Rightarrow> (string list \<times> string list \<times> (nat \<Rightarrow> time)) list \<Rightarrow> string \<Rightarrow> string option list" where
  "resolve_seq app [] requestPath = []"
| "resolve_seq app ((ks1, ks2, clock) # calls) requestPath =
     chosen_name (ResolveBackend app ks1 ks2 clock requestPath)
       # resolve_seq (snd (ResolveBackend app ks1 ks2 clock requestPath)) calls requestPath"

subsection \<open>handlers.go\<close>

text \<open>
  What the network gives back is an argument of the model. One attempt of
  \<open>performRequest\<close> fails to build the request, fails in \<open>Client.Do\<close>, or gets a response;
  of a response the model keeps the status code, the headers and what \<open>io.ReadAll\<close> of
  the body yields.
\<close>

datatype body_result = ReadError | Body bytes

record http_response =
  StatusCode :: int
  Header :: "(string \<times> string) list"
  BodyRead :: body_result

datatype attempt_result = CreateError | DoError | DoResponse http_response

definition maxRetries :: nat where
  "maxRetries = 3"

text \<open>The loop \<open>for attempt := 1; attempt <= maxRetries; attempt++\<close>; \<open>resp0\<close> is the value of
  \<open>resp\<close> (nil or a response) that \<open>return resp, err\<close> after the loop would give. \<open>None\<close>
  is the result \<open>(nil, err)\<close>. The sleeps between attempts are dropped.\<close>

function performRequest_from :: "(nat \<Rightarrow> attempt_result) \<Rightarrow> nat \<Rightarrow> http_response option \<Rightarrow> http_response option" where
  "performRequest_from attempts attempt resp0 =
     (if attempt \<le> maxRetries
      then (case attempts attempt of
              CreateError \<Rightarrow> None
            | DoError \<Rightarrow>
                if attempt < maxRetries then performRequest_from attempts (attempt + 1) None else None
            | DoResponse resp \<Rightarrow>
                if StatusCode resp \<ge> 500 \<and> StatusCode resp \<le> 504 \<and> attempt < maxRetries
                then performRequest_from attempts (attempt + 1) (Some resp)
                else Some resp)
      else resp0)"
  by pat_completeness auto
termination
  by (relation "measure (\<lambda>(attempts, attempt, resp0). maxRetries + 1 - attempt)") auto

declare performRequest_from.simps [simp del]

definition performRequest :: "(nat \<Rightarrow> attempt_result) \<Rightarrow> http_response option" where
  "performRequest attempts = performRequest_from attempts 1 None"

text \<open>
  What a handler wrote to the \<open>http.ResponseWriter\<close>. A header is a list of name and value
  pairs; \<open>Add\<close> appends a pair, \<open>Del\<close> removes the pairs of a name and \<open>Set\<close> replaces them
  by one pair; the order between different names carries no meaning. \<open>http.Error\<close>, called
  with the header \<open>h\<close> built so far, deletes \<open>Content-Length\<close>, sets \<open>Content-Type\<close> and
  \<open>X-Content-Type-Options\<close>, writes the status and then the message followed by a newline.
\<close>

record written =
  wStatus :: int
  wHeader :: "(string \<times> string) list"
  wBody :: bytes

definition del_header :: "string \<Rightarrow> (string \<times> string) list \<Rightarrow> (string \<times> string) list" where
  "del_header k h = filter (\<lambda>(k', v). k' \<noteq> k) h"

definition set_header :: "string \<Rightarrow> string \<Rightarrow> (string \<times> string) list \<Rightarrow> (string \<times> string) list" where
  "set_header k v h = del_header k h @ [(k, v)]"

definition httpError :: "(string \<times> string) list \<Rightarrow> string \<Rightarrow> int \<Rightarrow> written" where
  "httpError h msg code =
     \<lparr>wStatus = code,
      wHeader = set_header ''X-Content-Type-Options'' ''nosniff''
                  (set_header ''Content-Type'' ''text/plain; charset=utf-8''
                     (del_header ''Content-Length'' h)),
      wBody = msg @ [CHR 0x0A]\<rparr>"

text \<open>Everything one call of \<open>HandleGetRequest\<close> takes from outside: the time of the cache
  lookup, the iteration orders and clock of the resolution, the outcomes of the attempts,
  the time of a failure report and the time of the store.\<close>

record get_env =
  now_get :: time
  order1 :: "string list"
  order2 :: "string list"
  resolve_clock :: "nat \<Rightarrow> time"
  upstream :: "nat \<Rightarrow> attempt_result"
  now_report :: time
  now_store :: time

datatype handler_result = Wrote written | Panicked

text \<open>The result is \<open>None\<close> only if the loop inside \<open>Store\<close> does not return.\<close>

definition HandleGetRequest :: "Application \<Rightarrow> get_env \<Rightarrow> string \<Rightarrow> (handler_result \<times> Application) option" where
  "HandleGetRequest app env path =
     (let (cachedResp, cache1) = Get (Cache app) path (now_get env);
          app0 = app\<lparr>Cache := cache1\<rparr>
      in case cachedResp of
           Some body \<Rightarrow> Some (Wrote \<lparr>wStatus = 200, wHeader = [], wBody = body\<rparr>, app0)
         | None \<Rightarrow>
             (let (res, app1) = ResolveBackend app0 (order1 env) (order2 env) (resolve_clock env) path
              in case res of
                   Inl index_out_of_range \<Rightarrow> Some (Panicked, app1)
                 | Inl err \<Rightarrow> Some (Wrote (httpError [] ''Service Unavailable'' 503), app1)
                 | Inr backend \<Rightarrow>
                     (case performRequest (upstream env) of
                        None \<Rightarrow>
                          Some (Wrote (httpError [] ''Service Unavailable'' 503),
                                app1\<lparr>CircuitBreaker :=
                                  OnFailure (CircuitBreaker app1) (Name (Server backend)) (now_report env)\<rparr>)
                      | Some resp \<Rightarrow>
                          (let cbm1 = (if StatusCode resp \<ge> 500 \<and> StatusCode resp \<le> 599
                                       then OnFailure (CircuitBreaker app1) (Name (Server backend)) (now_report env)
                                       else OnSuccess (CircuitBreaker app1) (Name (Server backend)));
                               cbm2 = OnRequestComplete cbm1 (Name (Server backend));
                               app2 = app1\<lparr>CircuitBreaker := cbm2\<rparr>
                           in case BodyRead resp of
                                ReadError \<Rightarrow>
                                  Some (Wrote (httpError (Header resp) ''Failed to read response'' 500),
                                        app2)
                              | Body bodyBytes \<Rightarrow>
                                  (let out = Wrote \<lparr>wStatus = StatusCode resp, wHeader = Header resp,
                                                    wBody = bodyBytes\<rparr>
                                   in if StatusCode resp = 200
                                      then (case Store (Cache app2) path bodyBytes (now_store env) of
                                              None \<Rightarrow> None
                                            | Some cache2 \<Rightarrow> Some (out, app2\<lparr>Cache := cache2\<rparr>))
                                      else Some (out, app2))))))"

text \<open>
  The answer of the backend that a call of \<open>HandleGetRequest\<close> forwards to the client
  after a cache miss, as status and body: there is one when a backend was resolved, an
  attempt of \<open>performRequest\<close> came back with a response and its body could be read.
\<close>

definition forwarded :: "Application \<Rightarrow> get_env \<Rightarrow> string \<Rightarrow> (int \<times> bytes) option" where
  "forwarded app env path =
     (let app0 = app\<lparr>Cache := snd (Get (Cache app) path (now_get env))\<rparr>
      in case fst (ResolveBackend app0 (order1 env) (order2 env) (resolve_clock env) path) of
           Inl err \<Rightarrow> None
         | Inr backend \<Rightarrow>
             (case performRequest (upstream env) of
                None \<Rightarrow> None
              | Some resp \<Rightarrow>
                  (case BodyRead resp of
                     ReadError \<Rightarrow> None
                   | Body bodyBytes \<Rightarrow> Some (StatusCode resp, bodyBytes))))"

text \<open>The cache a call of \<open>HandleGetRequest\<close> leaves behind.\<close>

definition cache_after :: "(handler_result \<times> Application) option \<Rightarrow> ResponseCache option" where
  "cache_after r = map_option (\<lambda>(out, app). Cache app) r"

subsection \<open>A running example\<close>

text \<open>
  Two backends \<open>a\<close> and \<open>b\<close> registered under the one prefix \<open>/s1\<close>, both probed healthy,
  no breaker created yet, no round-robin counter yet, and an empty cache with the TTL
  (30 s) and the budget (10 MB) that \<open>newApplication\<close> configures. \<open>example_env code\<close> is a
  request during which the registry is visited in the order \<open>a\<close>, \<open>b\<close> and the backend
  answers at once with status \<open>code\<close> and the body \<open>hello\<close>.
\<close>

definition server_a :: Server where
  "server_a = \<lparr>Name = ''a'', BaseURL = ''http://localhost:4200'', Prefixes = [''/s1''], RegisteredAt = 0\<rparr>"

definition server_b :: Server where
  "server_b = \<lparr>Name = ''b'', BaseURL = ''http://localhost:2200'', Prefixes = [''/s1''], RegisteredAt = 0\<rparr>"

definition probed_healthy :: HealthStatus where
  "probed_healthy = \<lparr>isHealthy = True, lastChecked = 0, consecutiveFailures = 0, lastResponseTime = 0\<rparr>"

definition example_app :: Application where
  "example_app =
     \<lparr>Cache = NewResponseCache 30000000000 10485760,
      Registry = [''a'' \<mapsto> server_a, ''b'' \<mapsto> server_b],
      HealthMonitor = [''a'' \<mapsto> probed_healthy, ''b'' \<mapsto> probed_healthy],
      CircuitBreaker = NewCircuitBreakerManager,
      roundRobinIndex = Map.empty\<rparr>"

definition example_env :: "int \<Rightarrow> get_env" where
  "example_env code =
     \<lparr>now_get = 1, order1 = [''a'', ''b''], order2 = [''a'', ''b''], resolve_clock = (\<lambda>i. 1),
      upstream = (\<lambda>i. DoResponse \<lparr>StatusCode = code, Header = [], BodyRead = Body ''hello''\<rparr>),
      now_report = 2, now_store = 3\<rparr>"


section \<open>Circuit breaker\<close>

lemma AllowRequest_other:
  "n \<noteq> m \<Longrightarrow> snd (AllowRequest cbm n t) m = cbm m"
  by (simp add: AllowRequest_def Let_def split: option.splits BreakerState.splits)

lemma AllowRequest_half_open_busy:
  "cbm n = Some b \<Longrightarrow> State b = HalfOpen \<Longrightarrow> InFlight b \<noteq> 0 \<Longrightarrow> AllowRequest cbm n t = (False, cbm)"
  by (simp add: AllowRequest_def)

lemma AllowRequests_half_open_busy:
  "cbm n = Some b \<Longrightarrow> State b = HalfOpen \<Longrightarrow> InFlight b \<noteq> 0 \<Longrightarrow>
   snd (AllowRequests cbm calls) n = Some b \<and>
   length (fst (AllowRequests cbm calls)) = length calls \<and>
   (\<forall>i < length calls. fst (calls ! i) = n \<longrightarrow> \<not> fst (AllowRequests cbm calls) ! i)"
proof (induction calls arbitrary: cbm)
  case Nil
  then show ?case by simp
next
  case (Cons c calls)
  obtain m t where c: "c = (m, t)" by (cases c)
  let ?cbm1 = "snd (AllowRequest cbm m t)"
  have keep: "?cbm1 n = Some b"
  proof (cases "m = n")
    case True
    then show ?thesis using Cons.prems by (simp add: AllowRequest_half_open_busy)
  next
    case False
    then show ?thesis using Cons.prems(1) by (simp add: AllowRequest_other)
  qed
  have first: "m = n \<Longrightarrow> \<not> fst (AllowRequest cbm m t)"
    using Cons.prems by (simp add: AllowRequest_half_open_busy)
  note IH = Cons.IH [of "snd (AllowRequest cbm m t)", OF keep Cons.prems(2) Cons.prems(3)]
  have unf: "AllowRequests cbm (c # calls) =
      (fst (AllowRequest cbm m t) # fst (AllowRequests ?cbm1 calls), snd (AllowRequests ?cbm1 calls))"
    by (simp add: c split_beta)
  have "\<not> (fst (AllowRequest cbm m t) # fst (AllowRequests ?cbm1 calls)) ! i"
    if "i < length (c # calls)" "fst ((c # calls) ! i) = n" for i
  proof (cases i)
    case 0
    then show ?thesis using that first by (simp add: c)
  next
    case (Suc j)
    then show ?thesis using that IH by simp
  qed
  then show ?case
    using IH by (simp add: unf)
qed

lemma OnFailure_first:
  assumes "fresh_closed cbm n"
  shows "\<exists>b. OnFailure cbm n t n = Some b \<and> State b = Closed \<and> Failures b = 1"
  using assms
  by (simp add: fresh_closed_def OnFailure_def newBreaker_def FailuresToOpen_def Let_def
      split: option.splits)

lemma OnFailure_closed_below:
  assumes "cbm n = Some b" "State b = Closed" "Failures b = k" "k + 1 < 5"
  shows "\<exists>b'. OnFailure cbm n t n = Some b' \<and> State b' = Closed \<and> Failures b' = k + 1"
  using assms by (simp add: OnFailure_def FailuresToOpen_def Let_def)

lemma OnFailure_closed_trip:
  assumes "cbm n = Some b" "State b = Closed" "Failures b = k" "k + 1 \<ge> 5"
  shows "\<exists>b'. OnFailure cbm n t n = Some b' \<and> State b' = Open \<and> Failures b' = k + 1
     \<and> LastOpenTime b' = t \<and> InFlight b' = InFlight b"
  using assms by (simp add: OnFailure_def FailuresToOpen_def Let_def)

lemma four_failures:
  assumes "fresh_closed cbm n"
  shows "\<exists>b. OnFailures cbm n [t1, t2, t3, t4] n = Some b \<and> State b = Closed \<and> Failures b = 4"
proof -
  obtain b1 where b1: "OnFailure cbm n t1 n = Some b1" "State b1 = Closed" "Failures b1 = 1"
    using OnFailure_first [OF assms] by blast
  obtain b2 where b2: "OnFailure (OnFailure cbm n t1) n t2 n = Some b2" "State b2 = Closed" "Failures b2 = 2"
    using OnFailure_closed_below [where cbm="OnFailure cbm n t1" and n=n and b=b1 and k=1 and t=t2] b1
    by auto
  obtain b3 where b3: "OnFailure (OnFailure (OnFailure cbm n t1) n t2) n t3 n = Some b3"
      "State b3 = Closed" "Failures b3 = 3"
    using OnFailure_closed_below [where cbm="OnFailure (OnFailure cbm n t1) n t2" and n=n and b=b2
        and k=2 and t=t3] b2
    by auto
  obtain b4 where b4: "OnFailure (OnFailure (OnFailure (OnFailure cbm n t1) n t2) n t3) n t4 n = Some b4"
      "State b4 = Closed" "Failures b4 = 4"
    using OnFailure_closed_below [where cbm="OnFailure (OnFailure (OnFailure cbm n t1) n t2) n t3"
        and n=n and b=b3 and k=3 and t=t4] b3
    by auto
  show ?thesis using b4 by (simp add: OnFailures_def)
qed

lemma OnFailures_snoc: "OnFailures cbm n (ts @ [t]) = OnFailure (OnFailures cbm n ts) n t"
  by (simp add: OnFailures_def)

lemma five_failures:
  assumes "fresh_closed cbm n"
  shows "\<exists>b. OnFailures cbm n [t1, t2, t3, t4, t5] n = Some b \<and> State b = Open
     \<and> Failures b = 5 \<and> LastOpenTime b = t5"
proof -
  obtain b4 where b4: "OnFailures cbm n [t1, t2, t3, t4] n = Some b4" "State b4 = Closed" "Failures b4 = 4"
    using four_failures [OF assms] by blast
  have "OnFailures cbm n [t1, t2, t3, t4, t5] = OnFailure (OnFailures cbm n [t1, t2, t3, t4]) n t5"
    using OnFailures_snoc [of cbm n "[t1, t2, t3, t4]" t5] by simp
  then show ?thesis
    using OnFailure_closed_trip [where cbm="OnFailures cbm n [t1, t2, t3, t4]" and n=n and b=b4
        and k=4 and t=t5] b4
    by auto
qed

lemma AllowRequest_open_early:
  assumes "cbm n = Some b" "State b = Open" "now - LastOpenTime b < OpenCooldown"
  shows "AllowRequest cbm n now = (False, cbm)"
  using assms by (simp add: AllowRequest_def)

lemma AllowRequest_open_late:
  assumes "cbm n = Some b" "State b = Open" "now - LastOpenTime b \<ge> OpenCooldown"
  shows "AllowRequest cbm n now = (True, cbm(n \<mapsto> b\<lparr>State := HalfOpen, InFlight := 0\<rparr>))"
  using assms by (simp add: AllowRequest_def)

lemma AllowRequest_half_open_idle:
  assumes "cbm n = Some b" "State b = HalfOpen" "InFlight b = 0"
  shows "AllowRequest cbm n now = (True, cbm(n \<mapsto> b\<lparr>InFlight := 1\<rparr>))"
  using assms by (simp add: AllowRequest_def)

lemma AllowRequest_closed:
  assumes "cbm n = Some b" "State b = Closed"
  shows "AllowRequest cbm n now = (True, cbm)"
  using assms by (simp add: AllowRequest_def)

text \<open>
  C1 (what the code does). Starting from Closed with failure count 0, for every backend
  name: four \<open>OnFailure\<close> calls leave the breaker Closed and the fifth moves it to Open.
  While Open, an \<open>AllowRequest\<close> made less than the 30-second cooldown after the opening
  returns false and changes nothing. The first \<open>AllowRequest\<close> made once the cooldown has
  elapsed returns true and moves the breaker to HalfOpen, but it leaves the in-flight
  counter at 0, not 1: the admitted call is not counted, and the next \<open>AllowRequest\<close>
  is admitted as well, so two probes are in flight at once.
\<close>

theorem breaker_trip_and_first_probe:
  assumes "fresh_closed cbm serverName"
  shows "GetBreakerState (OnFailures cbm serverName [t1, t2, t3, t4]) serverName = Closed \<and>
    GetBreakerState (OnFailures cbm serverName [t1, t2, t3, t4, t5]) serverName = Open \<and>
    (now - t5 < OpenCooldown \<longrightarrow>
       AllowRequest (OnFailures cbm serverName [t1, t2, t3, t4, t5]) serverName now
         = (False, OnFailures cbm serverName [t1, t2, t3, t4, t5])) \<and>
    (now - t5 \<ge> OpenCooldown \<longrightarrow>
       (let (ok, cbm') = AllowRequest (OnFailures cbm serverName [t1, t2, t3, t4, t5]) serverName now
        in ok \<and> GetBreakerState cbm' serverName = HalfOpen \<and> in_flight_of cbm' serverName = 0
           \<and> fst (AllowRequest cbm' serverName now')))"
proof -
  let ?c5 = "OnFailures cbm serverName [t1, t2, t3, t4, t5]"
  obtain b4 where b4: "OnFailures cbm serverName [t1, t2, t3, t4] serverName = Some b4" "State b4 = Closed"
    using four_failures [OF assms] by blast
  obtain b where b: "?c5 serverName = Some b" "State b = Open" "LastOpenTime b = t5"
    using five_failures [OF assms] by blast
  have c4: "GetBreakerState (OnFailures cbm serverName [t1, t2, t3, t4]) serverName = Closed"
    using b4 by (simp add: GetBreakerState_def)
  have c5: "GetBreakerState ?c5 serverName = Open"
    using b by (simp add: GetBreakerState_def)
  have early: "now - t5 < OpenCooldown \<longrightarrow> AllowRequest ?c5 serverName now = (False, ?c5)"
    using AllowRequest_open_early [where cbm="?c5" and n=serverName and b=b and now=now] b by simp
  have late: "now - t5 \<ge> OpenCooldown \<longrightarrow>
           (let (ok, cbm') = AllowRequest ?c5 serverName now
            in ok \<and> GetBreakerState cbm' serverName = HalfOpen \<and> in_flight_of cbm' serverName = 0
               \<and> fst (AllowRequest cbm' serverName now'))"
  proof
    assume late: "now - t5 \<ge> OpenCooldown"
    have ar: "AllowRequest ?c5 serverName now = (True, ?c5(serverName \<mapsto> b\<lparr>State := HalfOpen, InFlight := 0\<rparr>))"
      using AllowRequest_open_late [where cbm="?c5" and n=serverName and b=b and now=now] b late by simp
    have "fst (AllowRequest (?c5(serverName \<mapsto> b\<lparr>State := HalfOpen, InFlight := 0\<rparr>)) serverName now')"
      by (simp add: AllowRequest_half_open_idle [of _ _ "b\<lparr>State := HalfOpen, InFlight := 0\<rparr>"])
    then show "(let (ok, cbm') = AllowRequest ?c5 serverName now
            in ok \<and> GetBreakerState cbm' serverName = HalfOpen \<and> in_flight_of cbm' serverName = 0
               \<and> fst (AllowRequest cbm' serverName now'))"
      by (simp add: ar GetBreakerState_def in_flight_of_def GetBreakerInfo_def)
  qed
  show ?thesis using c4 c5 early late by blast
qed

text \<open>The failing input of C1: a new manager, five failures of backend \<open>s1\<close> at times 1 to
  5, then \<open>AllowRequest\<close> 30 seconds after the fifth.\<close>

theorem breaker_trip_and_first_probe_witness:
  "fresh_closed NewCircuitBreakerManager ''s1'' \<and>
   GetBreakerState (OnFailures NewCircuitBreakerManager ''s1'' [1, 2, 3, 4, 5]) ''s1'' = Open \<and>
   fst (AllowRequest (OnFailures NewCircuitBreakerManager ''s1'' [1, 2, 3, 4, 5]) ''s1'' 30000000005) \<and>
   in_flight_of (snd (AllowRequest (OnFailures NewCircuitBreakerManager ''s1'' [1, 2, 3, 4, 5]) ''s1'' 30000000005)) ''s1'' = 0"
proof -
  have h: "fresh_closed NewCircuitBreakerManager ''s1''"
    by (simp add: fresh_closed_def NewCircuitBreakerManager_def)
  have late: "(30000000005::int) - 5 \<ge> OpenCooldown" by (simp add: OpenCooldown_def)
  show ?thesis
    using h breaker_trip_and_first_probe [OF h, of 1 2 3 4 5 30000000005 0] late
    by (simp add: split_beta)
qed

text \<open>
  C4. Whenever a breaker is HalfOpen with in-flight = 1, \<open>AllowRequest\<close> for that backend
  returns false and changes nothing, so every further \<open>AllowRequest\<close> for it, in any run
  of \<open>AllowRequest\<close> calls for this and other backends, returns false and the counter
  stays 1. Once \<open>OnRequestComplete\<close> is called for it the counter is 0 and the next
  \<open>AllowRequest\<close> is admitted. In every state \<open>OnRequestComplete\<close> subtracts one from the
  counter exactly when the breaker is HalfOpen and the counter is positive, and leaves
  it alone otherwise, so a counter that is not negative stays so. (\<open>OnSuccess\<close> and
  \<open>OnFailure\<close> for the backend take its breaker out of HalfOpen; the claim speaks of the
  breaker while it is HalfOpen with one probe counted.)
\<close>

theorem half_open_single_probe:
  assumes "cbm serverName = Some b" and "State b = HalfOpen" and "InFlight b = 1"
  shows "AllowRequest cbm serverName now = (False, cbm) \<and>
    (\<forall>i < length calls. fst (calls ! i) = serverName \<longrightarrow> \<not> fst (AllowRequests cbm calls) ! i) \<and>
    in_flight_of (snd (AllowRequests cbm calls)) serverName = 1 \<and>
    in_flight_of (OnRequestComplete cbm serverName) serverName = 0 \<and>
    fst (AllowRequest (OnRequestComplete cbm serverName) serverName now) \<and>
    in_flight_of (OnRequestComplete cbm' n) n =
          (if GetBreakerState cbm' n = HalfOpen \<and> in_flight_of cbm' n > 0
           then in_flight_of cbm' n - 1 else in_flight_of cbm' n) \<and>
    (0 \<le> in_flight_of cbm' n \<longrightarrow> 0 \<le> in_flight_of (OnRequestComplete cbm' n) n)"
proof -
  have nz: "InFlight b \<noteq> 0" using assms(3) by simp
  have p1: "AllowRequest cbm serverName now = (False, cbm)"
    using assms nz by (simp add: AllowRequest_half_open_busy)
  have p2: "\<forall>i < length calls. fst (calls ! i) = serverName \<longrightarrow> \<not> fst (AllowRequests cbm calls) ! i"
    using AllowRequests_half_open_busy [of cbm serverName b calls, OF assms(1,2) nz] by blast
  have p3: "in_flight_of (snd (AllowRequests cbm calls)) serverName = 1"
    using AllowRequests_half_open_busy [of cbm serverName b calls, OF assms(1,2) nz] assms(3)
    by (simp add: in_flight_of_def GetBreakerInfo_def)
  have p4: "in_flight_of (OnRequestComplete cbm serverName) serverName = 0"
    using assms by (simp add: OnRequestComplete_def in_flight_of_def GetBreakerInfo_def)
  have p5: "fst (AllowRequest (OnRequestComplete cbm serverName) serverName now)"
    using assms by (simp add: OnRequestComplete_def AllowRequest_def)
  have p6: "in_flight_of (OnRequestComplete cbm' n) n =
          (if GetBreakerState cbm' n = HalfOpen \<and> in_flight_of cbm' n > 0
           then in_flight_of cbm' n - 1 else in_flight_of cbm' n)"
    by (simp add: OnRequestComplete_def in_flight_of_def GetBreakerInfo_def GetBreakerState_def
        split: option.splits)
  then have p7: "0 \<le> in_flight_of cbm' n \<longrightarrow> 0 \<le> in_flight_of (OnRequestComplete cbm' n) n"
    by simp
  show ?thesis using p1 p2 p3 p4 p5 p6 p7 by blast
qed

text \<open>A breaker that is HalfOpen with one probe counted: further \<open>AllowRequest\<close> calls are
  refused, and the call after \<open>OnRequestComplete\<close> is admitted.\<close>

theorem half_open_single_probe_witness:
  "[''s1'' \<mapsto> \<lparr>State = HalfOpen, Failures = 5, LastOpenTime = 0, InFlight = 1\<rparr>] ''s1''
     = Some \<lparr>State = HalfOpen, Failures = 5, LastOpenTime = 0, InFlight = 1\<rparr> \<and>
   \<not> fst (AllowRequest [''s1'' \<mapsto> \<lparr>State = HalfOpen, Failures = 5, LastOpenTime = 0, InFlight = 1\<rparr>] ''s1'' 7) \<and>
   in_flight_of (snd (AllowRequests [''s1'' \<mapsto> \<lparr>State = HalfOpen, Failures = 5, LastOpenTime = 0, InFlight = 1\<rparr>]
      [(''s1'', 8), (''s2'', 9), (''s1'', 10)])) ''s1'' = 1 \<and>
   fst (AllowRequest (OnRequestComplete
      [''s1'' \<mapsto> \<lparr>State = HalfOpen, Failures = 5, LastOpenTime = 0, InFlight = 1\<rparr>] ''s1'') ''s1'' 7)"
proof -
  let ?b = "\<lparr>State = HalfOpen, Failures = 5, LastOpenTime = 0, InFlight = 1\<rparr>"
  have h1: "[''s1'' \<mapsto> ?b] ''s1'' = Some ?b" by simp
  have h2: "State ?b = HalfOpen" by simp
  have h3: "InFlight ?b = 1" by simp
  show ?thesis
    using half_open_single_probe [of "[''s1'' \<mapsto> ?b]" "''s1''" ?b 7
        "[(''s1'', 8), (''s2'', 9), (''s1'', 10)]" Map.empty "''s1''", OF h1 h2 h3]
    by simp
qed

section \<open>Health monitor\<close>

lemma update_ok:
  "\<exists>s. updateHealthStatus hm n True rt now n = Some s \<and> isHealthy s \<and> consecutiveFailures s = 0"
  by (simp add: updateHealthStatus_def Let_def)

lemma update_fail:
  "\<exists>s. updateHealthStatus hm n False rt now n = Some s
     \<and> consecutiveFailures s = failures_of hm n + 1
     \<and> isHealthy s = (IsHealthy hm n \<and> failures_of hm n + 1 < 3)"
  by (auto simp: updateHealthStatus_def Let_def failures_of_def GetHealthStatus_def IsHealthy_def
      UnhealthyThreshold_def newHealthStatus_def split: option.splits)

lemma check_fail:
  assumes "\<not> probe_ok res"
  shows "failures_of (checkServerHealth hm n res rt now) n = failures_of hm n + 1"
    and "IsHealthy (checkServerHealth hm n res rt now) n = (IsHealthy hm n \<and> failures_of hm n + 1 < 3)"
  using assms update_fail [of hm n rt now]
  by (auto simp: checkServerHealth_def failures_of_def GetHealthStatus_def IsHealthy_def)

lemma check_ok:
  assumes "probe_ok res"
  shows "failures_of (checkServerHealth hm n res rt now) n = 0"
    and "IsHealthy (checkServerHealth hm n res rt now) n"
  using assms update_ok [of hm n rt now]
  by (auto simp: checkServerHealth_def failures_of_def GetHealthStatus_def IsHealthy_def)

lemma probes_snoc:
  "probes hm n (ps @ [(res, rt, now)]) = checkServerHealth (probes hm n ps) n res rt now"
  by (simp add: probes_def)

lemma failing_run:
  assumes "\<forall>p \<in> set fs. \<not> probe_ok (fst p)"
  shows "failures_of (probes hm n fs) n = failures_of hm n + int (length fs) \<and>
         IsHealthy (probes hm n fs) n = (IsHealthy hm n \<and> (fs = [] \<or> failures_of hm n + int (length fs) < 3))"
  using assms
proof (induction fs rule: rev_induct)
  case Nil
  then show ?case by (simp add: probes_def)
next
  case (snoc p fs)
  obtain res rt now where p: "p = (res, rt, now)" by (cases p)
  have bad: "\<not> probe_ok res" using snoc.prems by (simp add: p)
  have IH: "failures_of (probes hm n fs) n = failures_of hm n + int (length fs)"
    "IsHealthy (probes hm n fs) n = (IsHealthy hm n \<and> (fs = [] \<or> failures_of hm n + int (length fs) < 3))"
    using snoc by auto
  show ?case
    unfolding p probes_snoc
    using check_fail [OF bad, of "probes hm n fs" n rt now] IH
    by auto
qed

text \<open>
  C8. For every backend: a probe turns a healthy backend unhealthy only if it failed and
  the consecutive-failure counter has then reached 3; after a successful probe, a run of
  failed probes leaves the backend healthy exactly as long as the run is shorter than 3;
  a successful probe always leaves the backend healthy with the counter at 0, whatever
  the state before (so the first success after being unhealthy recovers it); and
  \<open>IsHealthy\<close> is false for every name without a health record.
\<close>

theorem health_hysteresis:
  "(IsHealthy hm serverName \<and> \<not> IsHealthy (checkServerHealth hm serverName res rt now) serverName
      \<longrightarrow> \<not> probe_ok res \<and> failures_of (checkServerHealth hm serverName res rt now) serverName \<ge> 3) \<and>
   (probe_ok ok \<and> (\<forall>p \<in> set fs. \<not> probe_ok (fst p))
      \<longrightarrow> IsHealthy (probes hm serverName ((ok, rt0, now0) # fs)) serverName = (length fs < 3)) \<and>
   (probe_ok res \<longrightarrow> IsHealthy (checkServerHealth hm serverName res rt now) serverName
        \<and> failures_of (checkServerHealth hm serverName res rt now) serverName = 0) \<and>
   (GetHealthStatus hm serverName = None \<longrightarrow> \<not> IsHealthy hm serverName)"
proof (intro conjI impI)
  assume a: "IsHealthy hm serverName \<and> \<not> IsHealthy (checkServerHealth hm serverName res rt now) serverName"
  then show bad: "\<not> probe_ok res" using check_ok(2) by blast
  show "failures_of (checkServerHealth hm serverName res rt now) serverName \<ge> 3"
    using a check_fail [OF bad, of hm serverName rt now] by auto
next
  assume a: "probe_ok ok \<and> (\<forall>p \<in> set fs. \<not> probe_ok (fst p))"
  let ?h1 = "checkServerHealth hm serverName ok rt0 now0"
  have unf: "probes hm serverName ((ok, rt0, now0) # fs) = probes ?h1 serverName fs"
    by (simp add: probes_def)
  have "IsHealthy ?h1 serverName" "failures_of ?h1 serverName = 0"
    using a check_ok by auto
  then show "IsHealthy (probes hm serverName ((ok, rt0, now0) # fs)) serverName = (length fs < 3)"
    unfolding unf using failing_run [of fs ?h1 serverName] a by auto
next
  assume "probe_ok res"
  then show "IsHealthy (checkServerHealth hm serverName res rt now) serverName"
    "failures_of (checkServerHealth hm serverName res rt now) serverName = 0"
    using check_ok by auto
next
  assume "GetHealthStatus hm serverName = None"
  then show "\<not> IsHealthy hm serverName" by (simp add: IsHealthy_def GetHealthStatus_def)
qed

text \<open>One success then two failures: still healthy. A third failure: unhealthy. One
  success after that: healthy again. A name never probed: not healthy.\<close>

theorem health_hysteresis_witness:
  "IsHealthy (probes NewHealthMonitor ''s1''
      [(ProbeStatus 200, 5, 1), (ProbeError, 5, 2), (ProbeStatus 500, 5, 3)]) ''s1'' \<and>
   \<not> IsHealthy (probes NewHealthMonitor ''s1''
      [(ProbeStatus 200, 5, 1), (ProbeError, 5, 2), (ProbeStatus 500, 5, 3), (ProbeStatus 404, 5, 4)]) ''s1'' \<and>
   IsHealthy (checkServerHealth (probes NewHealthMonitor ''s1''
      [(ProbeStatus 200, 5, 1), (ProbeError, 5, 2), (ProbeStatus 500, 5, 3), (ProbeStatus 404, 5, 4)])
      ''s1'' (ProbeStatus 204) 5 6) ''s1'' \<and>
   \<not> IsHealthy NewHealthMonitor ''s1''"
proof -
  let ?two = "[(ProbeError, 5::int, 2::int), (ProbeStatus 500, 5, 3)]"
  let ?three = "[(ProbeError, 5::int, 2::int), (ProbeStatus 500, 5, 3), (ProbeStatus 404, 5, 4)]"
  let ?h4 = "probes NewHealthMonitor ''s1'' ((ProbeStatus 200, 5, 1) # ?three)"
  have ok: "probe_ok (ProbeStatus 200)" "probe_ok (ProbeStatus 204)" by simp_all
  have bad2: "\<forall>p \<in> set ?two. \<not> probe_ok (fst p)" by simp
  have bad3: "\<forall>p \<in> set ?three. \<not> probe_ok (fst p)" by simp
  have none: "GetHealthStatus NewHealthMonitor ''s1'' = None"
    by (simp add: GetHealthStatus_def NewHealthMonitor_def)
  show ?thesis
    using health_hysteresis [of NewHealthMonitor "''s1''" ProbeError 0 0 "ProbeStatus 200" ?two 5 1]
      health_hysteresis [of NewHealthMonitor "''s1''" ProbeError 0 0 "ProbeStatus 200" ?three 5 1]
      health_hysteresis [of ?h4 "''s1''" "ProbeStatus 204" 5 6 "ProbeStatus 200" "[]" 0 0]
      ok bad2 bad3 none
    by simp
qed

section \<open>Registry: longest-prefix match\<close>

lemma longest_in_prefixes_cases:
  "longest_in_prefixes path ps lp = lp \<or>
   (longest_in_prefixes path ps lp \<in> set ps \<and> prefix (longest_in_prefixes path ps lp) path
      \<and> length lp < length (longest_in_prefixes path ps lp))"
proof (induction ps arbitrary: lp)
  case Nil
  then show ?case by simp
next
  case (Cons p ps)
  show ?case
  proof (cases "prefix p path \<and> length p > length lp")
    case True
    then show ?thesis using Cons.IH [of p] by auto
  next
    case False
    then show ?thesis using Cons.IH [of lp] by auto
  qed
qed

lemma longest_in_prefixes_mono:
  "length lp \<le> length (longest_in_prefixes path ps lp)"
  using longest_in_prefixes_cases [of path ps lp] by auto

lemma longest_in_prefixes_bound:
  "p \<in> set ps \<Longrightarrow> prefix p path \<Longrightarrow> length p \<le> length (longest_in_prefixes path ps lp)"
proof (induction ps arbitrary: lp)
  case Nil
  then show ?case by simp
next
  case (Cons q ps)
  let ?lp' = "if prefix q path \<and> length q > length lp then q else lp"
  show ?case
  proof (cases "p = q")
    case True
    have "length p \<le> length ?lp'" using True Cons.prems by auto
    also have "\<dots> \<le> length (longest_in_prefixes path ps ?lp')"
      by (rule longest_in_prefixes_mono)
    finally show ?thesis by simp
  next
    case False
    then have "p \<in> set ps" using Cons.prems by simp
    then show ?thesis using Cons.IH [of ?lp'] Cons.prems by simp
  qed
qed

lemma longest_in_servers_cases:
  "longest_in_servers path ss lp = lp \<or>
   ((\<exists>s \<in> set ss. longest_in_servers path ss lp \<in> set (Prefixes s))
      \<and> prefix (longest_in_servers path ss lp) path
      \<and> length lp < length (longest_in_servers path ss lp))"
proof (induction ss arbitrary: lp)
  case Nil
  then show ?case by simp
next
  case (Cons s ss)
  let ?lp' = "longest_in_prefixes path (Prefixes s) lp"
  show ?case
    using Cons.IH [of ?lp'] longest_in_prefixes_cases [of path "Prefixes s" lp]
    by auto
qed

lemma longest_in_servers_mono:
  "length lp \<le> length (longest_in_servers path ss lp)"
  using longest_in_servers_cases [of path ss lp] by auto

lemma longest_in_servers_bound:
  "s \<in> set ss \<Longrightarrow> p \<in> set (Prefixes s) \<Longrightarrow> prefix p path
     \<Longrightarrow> length p \<le> length (longest_in_servers path ss lp)"
proof (induction ss arbitrary: lp)
  case Nil
  then show ?case by simp
next
  case (Cons q ss)
  let ?lp' = "longest_in_prefixes path (Prefixes q) lp"
  show ?case
  proof (cases "s = q")
    case True
    have "length p \<le> length ?lp'"
      using True Cons.prems longest_in_prefixes_bound by blast
    also have "\<dots> \<le> length (longest_in_servers path ss ?lp')"
      by (rule longest_in_servers_mono)
    finally show ?thesis by simp
  next
    case False
    then have "s \<in> set ss" using Cons.prems by simp
    then show ?thesis using Cons.IH [of ?lp'] Cons.prems by simp
  qed
qed

lemma has_prefix_entry_iff: "has_prefix_entry ps lp = (lp \<in> set ps)"
  by (induction ps) auto

lemma collect_servers_filter:
  "collect_servers ss lp = filter (\<lambda>s. lp \<in> set (Prefixes s)) ss"
  by (induction ss) (auto simp: has_prefix_entry_iff)

lemma set_range_servers:
  "iteration_order r ks \<Longrightarrow> set (range_servers r ks) = ran r"
proof -
  assume io: "iteration_order r ks"
  have "set (range_servers r ks) = {s. \<exists>k \<in> set ks. r k = Some s}"
    by (force simp: range_servers_def List.map_filter_def image_iff)
  also have "\<dots> = ran r"
    using io by (auto simp: iteration_order_def ran_def dom_def)
  finally show ?thesis .
qed

lemma ran_two: "a \<noteq> b \<Longrightarrow> ran [a \<mapsto> x, b \<mapsto> y] = {x, y}"
  by (auto simp: ran_def)

lemma same_length_prefixes: "prefix p path \<Longrightarrow> prefix q path \<Longrightarrow> length p = length q \<Longrightarrow> p = q"
  by (auto simp: prefix_def)

lemma ServersForPath_no_match:
  assumes "iteration_order r ks1"
    and "{p \<in> matching_prefixes r path. p \<noteq> []} = {}"
  shows "ServersForPath r ks1 ks2 path = ([], [], False)"
proof -
  let ?lp = "longest_in_servers path (range_servers r ks1) []"
  have "?lp = []"
  proof (rule ccontr)
    assume ne: "?lp \<noteq> []"
    then have "(\<exists>s \<in> ran r. ?lp \<in> set (Prefixes s)) \<and> prefix ?lp path"
      using longest_in_servers_cases [of path "range_servers r ks1" "[]"]
        set_range_servers [OF assms(1)] by auto
    then have "?lp \<in> {p \<in> matching_prefixes r path. p \<noteq> []}"
      using ne by (auto simp: matching_prefixes_def registered_prefixes_def)
    then show False using assms(2) by simp
  qed
  then show ?thesis by (simp add: ServersForPath_def)
qed

lemma ServersForPath_match:
  assumes "iteration_order r ks1" and "iteration_order r ks2"
    and "q \<in> matching_prefixes r path" and "q \<noteq> []"
  shows "\<exists>lp ms. ServersForPath r ks1 ks2 path = (lp, ms, True)
     \<and> lp \<noteq> [] \<and> lp \<in> matching_prefixes r path
     \<and> (\<forall>p \<in> matching_prefixes r path. length p \<le> length lp \<and> (length p = length lp \<longrightarrow> p = lp))
     \<and> ms = filter (\<lambda>s. lp \<in> set (Prefixes s)) (range_servers r ks2)
     \<and> set ms = {s \<in> ran r. lp \<in> set (Prefixes s)}"
proof -
  let ?lp = "longest_in_servers path (range_servers r ks1) []"
  let ?ms = "filter (\<lambda>s. ?lp \<in> set (Prefixes s)) (range_servers r ks2)"
  have bound: "length p \<le> length ?lp" if "p \<in> matching_prefixes r path" for p
  proof -
    have "prefix p path" "\<exists>s \<in> ran r. p \<in> set (Prefixes s)"
      using that by (simp_all add: matching_prefixes_def registered_prefixes_def)
    then obtain s where "s \<in> ran r" "p \<in> set (Prefixes s)" "prefix p path"
      by blast
    then show ?thesis
      using longest_in_servers_bound [of s "range_servers r ks1" p path "[]"]
        set_range_servers [OF assms(1)] by simp
  qed
  have "length q \<le> length ?lp" using bound assms(3) by blast
  then have ne: "?lp \<noteq> []" using assms(4) by auto
  then have in_reg: "\<exists>s \<in> ran r. ?lp \<in> set (Prefixes s)" and pre: "prefix ?lp path"
    using longest_in_servers_cases [of path "range_servers r ks1" "[]"]
      set_range_servers [OF assms(1)] by auto
  have mem: "?lp \<in> matching_prefixes r path"
    using in_reg pre by (auto simp: matching_prefixes_def registered_prefixes_def)
  have uniq: "p = ?lp" if "p \<in> matching_prefixes r path" "length p = length ?lp" for p
    using that pre same_length_prefixes [of p path ?lp] by (simp add: matching_prefixes_def)
  have set_ms: "set ?ms = {s \<in> ran r. ?lp \<in> set (Prefixes s)}"
    using set_range_servers [OF assms(2)] by auto
  have "?ms \<noteq> []"
  proof -
    obtain s where "s \<in> ran r" "?lp \<in> set (Prefixes s)" using in_reg by blast
    then have "s \<in> set ?ms" using set_ms by simp
    then show ?thesis by (metis empty_iff empty_set)
  qed
  then have "ServersForPath r ks1 ks2 path = (?lp, ?ms, True)"
    using ne by (simp add: ServersForPath_def collect_servers_filter Let_def)
  then show ?thesis using ne mem bound uniq set_ms by blast
qed

text \<open>The PostgreSQL registry answers as the in-memory one does when both of its loops
  take the order of the rows; a failed query answers "no match".\<close>

lemma ServersForPath_pg_rows:
  "ServersForPath_pg (Some (range_servers r ks)) requestPath = ServersForPath r ks ks requestPath"
  "ServersForPath_pg None requestPath = ([], [], False)"
  by (simp_all add: ServersForPath_pg_def ServersForPath_def)

text \<open>
  C6 as stated fails for the empty prefix. A server registered with the prefix \<open>''''\<close>
  matches every path, so for the path \<open>/x\<close> the longest registered prefix that is a
  string-prefix of the path is \<open>''''\<close> and one server registered it; \<open>ServersForPath\<close>
  returns no server and reports no match, because \<open>longestPrefix\<close> starts as the empty
  string and the second pass runs only when it is not empty.
\<close>

theorem ServersForPath_empty_prefix_counterexample:
  "iteration_order [''a'' \<mapsto> \<lparr>Name = ''a'', BaseURL = ''http://a'', Prefixes = [''''], RegisteredAt = 0\<rparr>] [''a''] \<and>
   matching_prefixes [''a'' \<mapsto> \<lparr>Name = ''a'', BaseURL = ''http://a'', Prefixes = [''''], RegisteredAt = 0\<rparr>] ''/x'' = {''''} \<and>
   ServersForPath [''a'' \<mapsto> \<lparr>Name = ''a'', BaseURL = ''http://a'', Prefixes = [''''], RegisteredAt = 0\<rparr>]
     [''a''] [''a''] ''/x'' = ('''', [], False)"
  by (auto simp: iteration_order_def matching_prefixes_def registered_prefixes_def
      ServersForPath_def range_servers_def)

text \<open>
  C6, amended. For every request path and whatever order the two loops visit the map in:
  when no non-empty registered prefix is a string-prefix of the path the result is empty
  (empty prefix, no servers, not found); otherwise \<open>ServersForPath\<close> returns a non-empty
  registered prefix of the path that is at least as long as every registered prefix of
  the path (and is the only one of its length), together with exactly the registered
  servers that list this very string among their prefixes, each registry entry once, in
  the order of the second loop. In particular, when the registered prefixes are \<open>/s1\<close>
  and \<open>/s1/a\<close>, the path \<open>/s1/a/x\<close> resolves to \<open>/s1/a\<close>.
\<close>

theorem ServersForPath_longest_nonempty_prefix:
  assumes "iteration_order r ks1" and "iteration_order r ks2"
  shows "({p \<in> matching_prefixes r requestPath. p \<noteq> []} = {}
            \<longrightarrow> ServersForPath r ks1 ks2 requestPath = ([], [], False)) \<and>
         ({p \<in> matching_prefixes r requestPath. p \<noteq> []} \<noteq> {}
            \<longrightarrow> (\<exists>lp ms. ServersForPath r ks1 ks2 requestPath = (lp, ms, True)
                 \<and> lp \<noteq> [] \<and> lp \<in> matching_prefixes r requestPath
                 \<and> (\<forall>p \<in> matching_prefixes r requestPath.
                        length p \<le> length lp \<and> (length p = length lp \<longrightarrow> p = lp))
                 \<and> ms = filter (\<lambda>s. lp \<in> set (Prefixes s)) (range_servers r ks2)
                 \<and> set ms = {s \<in> ran r. lp \<in> set (Prefixes s)})) \<and>
         (registered_prefixes r = {''/s1'', ''/s1/a''}
            \<longrightarrow> fst (ServersForPath r ks1 ks2 ''/s1/a/x'') = ''/s1/a'')"
proof (intro conjI impI)
  assume "{p \<in> matching_prefixes r requestPath. p \<noteq> []} = {}"
  then show "ServersForPath r ks1 ks2 requestPath = ([], [], False)"
    using ServersForPath_no_match [OF assms(1)] by blast
next
  assume "{p \<in> matching_prefixes r requestPath. p \<noteq> []} \<noteq> {}"
  then obtain q where "q \<in> matching_prefixes r requestPath" "q \<noteq> []" by blast
  then show "\<exists>lp ms. ServersForPath r ks1 ks2 requestPath = (lp, ms, True)
                 \<and> lp \<noteq> [] \<and> lp \<in> matching_prefixes r requestPath
                 \<and> (\<forall>p \<in> matching_prefixes r requestPath.
                        length p \<le> length lp \<and> (length p = length lp \<longrightarrow> p = lp))
                 \<and> ms = filter (\<lambda>s. lp \<in> set (Prefixes s)) (range_servers r ks2)
                 \<and> set ms = {s \<in> ran r. lp \<in> set (Prefixes s)}"
    using ServersForPath_match [OF assms] by blast
next
  assume reg: "registered_prefixes r = {''/s1'', ''/s1/a''}"
  have m: "matching_prefixes r ''/s1/a/x'' = {''/s1'', ''/s1/a''}"
    by (auto simp: matching_prefixes_def reg)
  then have "''/s1/a'' \<in> matching_prefixes r ''/s1/a/x''" by simp
  then obtain lp ms where res: "ServersForPath r ks1 ks2 ''/s1/a/x'' = (lp, ms, True)"
    and lp: "lp \<in> matching_prefixes r ''/s1/a/x''"
    and mx: "\<forall>p \<in> matching_prefixes r ''/s1/a/x''. length p \<le> length lp \<and> (length p = length lp \<longrightarrow> p = lp)"
    using ServersForPath_match [OF assms, of "''/s1/a''" "''/s1/a/x''"] by auto
  have len: "length ''/s1/a'' \<le> length lp" using mx m by blast
  have "lp \<noteq> ''/s1''"
  proof
    assume "lp = ''/s1''"
    then show False using len by simp
  qed
  moreover have "lp = ''/s1'' \<or> lp = ''/s1/a''" using lp m by blast
  ultimately have "lp = ''/s1/a''" by blast
  then show "fst (ServersForPath r ks1 ks2 ''/s1/a/x'') = ''/s1/a''" by (simp add: res)
qed

theorem ServersForPath_longest_nonempty_prefix_witness:
  "iteration_order
     [''one'' \<mapsto> \<lparr>Name = ''one'', BaseURL = ''http://localhost:4200'', Prefixes = [''/s1''], RegisteredAt = 0\<rparr>,
      ''two'' \<mapsto> \<lparr>Name = ''two'', BaseURL = ''http://localhost:2200'', Prefixes = [''/s1/a''], RegisteredAt = 1\<rparr>]
     [''one'', ''two''] \<and>
   iteration_order
     [''one'' \<mapsto> \<lparr>Name = ''one'', BaseURL = ''http://localhost:4200'', Prefixes = [''/s1''], RegisteredAt = 0\<rparr>,
      ''two'' \<mapsto> \<lparr>Name = ''two'', BaseURL = ''http://localhost:2200'', Prefixes = [''/s1/a''], RegisteredAt = 1\<rparr>]
     [''two'', ''one''] \<and>
   fst (ServersForPath
     [''one'' \<mapsto> \<lparr>Name = ''one'', BaseURL = ''http://localhost:4200'', Prefixes = [''/s1''], RegisteredAt = 0\<rparr>,
      ''two'' \<mapsto> \<lparr>Name = ''two'', BaseURL = ''http://localhost:2200'', Prefixes = [''/s1/a''], RegisteredAt = 1\<rparr>]
     [''one'', ''two''] [''two'', ''one''] ''/s1/a/x'') = ''/s1/a''"
proof -
  let ?r = "[''one'' \<mapsto> \<lparr>Name = ''one'', BaseURL = ''http://localhost:4200'', Prefixes = [''/s1''], RegisteredAt = 0\<rparr>,
      ''two'' \<mapsto> \<lparr>Name = ''two'', BaseURL = ''http://localhost:2200'', Prefixes = [''/s1/a''], RegisteredAt = (1::int)\<rparr>]"
  have h1: "iteration_order ?r [''one'', ''two'']"
    by (simp add: iteration_order_def insert_commute)
  have h2: "iteration_order ?r [''two'', ''one'']"
    by (simp add: iteration_order_def)
  have "ran ?r = {\<lparr>Name = ''one'', BaseURL = ''http://localhost:4200'', Prefixes = [''/s1''], RegisteredAt = 0\<rparr>,
      \<lparr>Name = ''two'', BaseURL = ''http://localhost:2200'', Prefixes = [''/s1/a''], RegisteredAt = 1\<rparr>}"
    by (rule ran_two) simp
  then have reg: "registered_prefixes ?r = {''/s1'', ''/s1/a''}"
    unfolding registered_prefixes_def by (simp add: insert_commute)
  show ?thesis
    using ServersForPath_longest_nonempty_prefix [OF h1 h2, of "''/s1/a/x''"] reg h1 h2
    by simp
qed

section \<open>Response cache: the pointer structure is an LRU list\<close>

lemma dseg_frame:
  "(\<forall>a \<in> set xs. prev (h' a) = prev (h a) \<and> nxt (h' a) = nxt (h a))
     \<Longrightarrow> dseg h' pr p xs lst nx = dseg h pr p xs lst nx"
  by (induction xs arbitrary: pr p) auto

lemma dseg_upd_other:
  "a \<notin> set xs \<Longrightarrow> dseg (h(a := n)) pr p xs lst nx = dseg h pr p xs lst nx"
  by (rule dseg_frame) auto

lemma dseg_append:
  "dseg h pr p (xs @ ys) lst nx = (\<exists>m ml. dseg h pr p xs ml m \<and> dseg h ml m ys lst nx)"
  by (induction xs arbitrary: pr p) auto

lemma dseg_last:
  "dseg h pr p xs lst nx \<Longrightarrow> lst = (if xs = [] then pr else Some (last xs))"
  by (induction xs arbitrary: pr p) auto

lemma dseg_first:
  "dseg h pr p xs lst nx \<Longrightarrow> p = (if xs = [] then nx else Some (hd xs))"
  by (cases xs) auto

lemma dseg_retarget_next:
  "dseg h pr p ys lst nx \<Longrightarrow> ys \<noteq> [] \<Longrightarrow> distinct ys
     \<Longrightarrow> dseg (h(last ys := (h (last ys))\<lparr>nxt := nx'\<rparr>)) pr p ys lst nx'"
proof (induction ys arbitrary: pr p)
  case Nil
  then show ?case by simp
next
  case (Cons y ys)
  show ?case
  proof (cases "ys = []")
    case True
    then show ?thesis using Cons.prems by auto
  next
    case False
    then have ne: "last ys \<noteq> y" using Cons.prems(3) by auto
    have tl: "dseg h (Some y) (nxt (h y)) ys lst nx" and dys: "distinct ys"
      and p: "p = Some y" "prev (h y) = pr"
      using Cons.prems by auto
    have IH: "dseg (h(last ys := (h (last ys))\<lparr>nxt := nx'\<rparr>)) (Some y) (nxt (h y)) ys lst nx'"
      by (rule Cons.IH [OF tl False dys])
    have l: "last (y # ys) = last ys" using False by simp
    show ?thesis
      unfolding l using IH p ne by (simp del: fun_upd_apply add: fun_upd_other)
  qed
qed

lemma dseg_retarget_prev:
  "dseg h pr p zs lst nx \<Longrightarrow> zs \<noteq> [] \<Longrightarrow> distinct zs
     \<Longrightarrow> dseg (h(hd zs := (h (hd zs))\<lparr>prev := pr'\<rparr>)) pr' p zs lst nx"
proof (cases zs)
  case Nil
  assume "zs \<noteq> []"
  then show ?thesis using Nil by simp
next
  case (Cons z zs')
  assume d: "dseg h pr p zs lst nx" and dist: "distinct zs"
  have "z \<notin> set zs'" using dist Cons by simp
  then have "dseg (h(z := (h z)\<lparr>prev := pr'\<rparr>)) (Some z) (nxt (h z)) zs' lst nx
      = dseg h (Some z) (nxt (h z)) zs' lst nx"
    by (rule dseg_upd_other)
  then show ?thesis using d Cons by simp
qed

text \<open>The heap, head and tail after unlinking node a.\<close>

lemma detachNode_fields:
  "fresh (detachNode rc a) = fresh rc"
  "items (detachNode rc a) = items rc"
  "maxBytes (detachNode rc a) = maxBytes rc"
  "usedBytes (detachNode rc a) = usedBytes rc"
  "ttl (detachNode rc a) = ttl rc"
  by (simp_all add: detachNode_def Let_def split: option.splits)

lemma detachNode_data:
  "key (store (detachNode rc a) b) = key (store rc b)"
  "val (store (detachNode rc a) b) = val (store rc b)"
  "sizeBytes (store (detachNode rc a) b) = sizeBytes (store rc b)"
  "expiresAt (store (detachNode rc a) b) = expiresAt (store rc b)"
  by (simp_all add: detachNode_def Let_def split: option.splits)

lemma detachNode_list:
  assumes d: "dseg (store rc) None (head rc) (ys @ a # zs) (tail rc) None"
    and dist: "distinct (ys @ a # zs)"
  shows "dseg (store (detachNode rc a)) None (head (detachNode rc a)) (ys @ zs) (tail (detachNode rc a)) None"
proof -
  let ?h = "store rc"
  obtain ml where A: "dseg ?h None (head rc) ys ml (Some a)"
    and P: "prev (?h a) = ml" and B: "dseg ?h (Some a) (nxt (?h a)) zs (tail rc) None"
    using d by (auto simp: dseg_append)
  have ml: "ml = (if ys = [] then None else Some (last ys))"
    using dseg_last [OF A] by simp
  have N: "nxt (?h a) = (if zs = [] then None else Some (hd zs))"
    using dseg_first [OF B] by simp
  have a_notin: "a \<notin> set ys" "a \<notin> set zs" using dist by auto
  have dys: "distinct ys" and dzs: "distinct zs" using dist by auto
  let ?rc' = "detachNode rc a"
  let ?h' = "store ?rc'"
  have A': "dseg ?h' None (head ?rc') ys ml (nxt (?h a))"
  proof (cases "ys = []")
    case True
    then have "ml = None" using ml by simp
    then have "head ?rc' = nxt (?h a)"
      using P by (simp add: detachNode_def Let_def split: option.splits)
    then show ?thesis using True \<open>ml = None\<close> by simp
  next
    case False
    let ?y = "last ys"
    have mly: "ml = Some ?y" using ml False by simp
    have step: "dseg (?h(?y := (?h ?y)\<lparr>nxt := nxt (?h a)\<rparr>)) None (head rc) ys ml (nxt (?h a))"
      using dseg_retarget_next [OF A False dys] .
    have yin: "?y \<in> set ys" using False by simp
    have ya: "?y \<noteq> a" using yin a_notin by auto
    have hd_same: "head ?rc' = head rc"
      using P mly by (simp add: detachNode_def Let_def split: option.splits)
    have "\<forall>b \<in> set ys. prev (?h' b) = prev ((?h(?y := (?h ?y)\<lparr>nxt := nxt (?h a)\<rparr>)) b)
        \<and> nxt (?h' b) = nxt ((?h(?y := (?h ?y)\<lparr>nxt := nxt (?h a)\<rparr>)) b)"
    proof
      fix b assume b: "b \<in> set ys"
      have bz: "zs \<noteq> [] \<Longrightarrow> b \<noteq> hd zs"
      proof -
        assume "zs \<noteq> []"
        then have "hd zs \<in> set zs" by simp
        then show "b \<noteq> hd zs" using b dist by auto
      qed
      show "prev (?h' b) = prev ((?h(?y := (?h ?y)\<lparr>nxt := nxt (?h a)\<rparr>)) b)
        \<and> nxt (?h' b) = nxt ((?h(?y := (?h ?y)\<lparr>nxt := nxt (?h a)\<rparr>)) b)"
        using P mly N ya bz
        by (auto simp: detachNode_def Let_def split: option.splits)
    qed
    then show ?thesis
      using step hd_same dseg_frame [of ys ?h' "?h(?y := (?h ?y)\<lparr>nxt := nxt (?h a)\<rparr>)"]
      by simp
  qed
  have B': "dseg ?h' ml (nxt (?h a)) zs (tail ?rc') None"
  proof (cases "zs = []")
    case True
    then have N0: "nxt (?h a) = None" using N by simp
    have "nxt (store (case prev (?h a) of
                   Some p \<Rightarrow> rc\<lparr>store := (?h)(p := (?h p)\<lparr>nxt := nxt (?h a)\<rparr>)\<rparr>
                 | None \<Rightarrow> rc\<lparr>head := nxt (?h a)\<rparr>) a) = None"
      using N0 by (auto split: option.splits)
    then have "tail ?rc' = ml"
      using P N0 a_notin ml
      by (auto simp: detachNode_def Let_def split: option.splits)
    then show ?thesis using True N0 by simp
  next
    case False
    let ?z = "hd zs"
    have Nz: "nxt (?h a) = Some ?z" using N False by simp
    have zin: "?z \<in> set zs" using False by simp
    have za: "?z \<noteq> a" using zin a_notin by auto
    have zy: "ys \<noteq> [] \<Longrightarrow> ?z \<noteq> last ys"
    proof -
      assume "ys \<noteq> []"
      then have "last ys \<in> set ys" by simp
      then show "?z \<noteq> last ys" using zin dist by auto
    qed
    have step: "dseg (?h(?z := (?h ?z)\<lparr>prev := ml\<rparr>)) ml (nxt (?h a)) zs (tail rc) None"
      using dseg_retarget_prev [OF B False dzs] .
    have tl_same: "tail ?rc' = tail rc"
      using P Nz ml a_notin by (auto simp: detachNode_def Let_def split: option.splits)
    have "\<forall>b \<in> set zs. prev (?h' b) = prev ((?h(?z := (?h ?z)\<lparr>prev := ml\<rparr>)) b)
        \<and> nxt (?h' b) = nxt ((?h(?z := (?h ?z)\<lparr>prev := ml\<rparr>)) b)"
    proof
      fix b assume b: "b \<in> set zs"
      have by': "ys \<noteq> [] \<Longrightarrow> b \<noteq> last ys"
      proof -
        assume "ys \<noteq> []"
        then have "last ys \<in> set ys" by simp
        then show "b \<noteq> last ys" using b dist by auto
      qed
      have ba: "b \<noteq> a" using b a_notin by auto
      show "prev (?h' b) = prev ((?h(?z := (?h ?z)\<lparr>prev := ml\<rparr>)) b)
        \<and> nxt (?h' b) = nxt ((?h(?z := (?h ?z)\<lparr>prev := ml\<rparr>)) b)"
        using P ml Nz za zy by' ba
        by (auto simp: detachNode_def Let_def split: option.splits)
    qed
    then show ?thesis
      using step tl_same dseg_frame [of zs ?h' "?h(?z := (?h ?z)\<lparr>prev := ml\<rparr>)"]
      by simp
  qed
  show ?thesis using A' B' by (auto simp: dseg_append)
qed

lemma insertAtHead_fields:
  "fresh (insertAtHead rc a) = fresh rc"
  "items (insertAtHead rc a) = items rc"
  "maxBytes (insertAtHead rc a) = maxBytes rc"
  "usedBytes (insertAtHead rc a) = usedBytes rc"
  "ttl (insertAtHead rc a) = ttl rc"
  by (simp_all add: insertAtHead_def Let_def split: option.splits)

lemma insertAtHead_data:
  "key (store (insertAtHead rc a) b) = key (store rc b)"
  "val (store (insertAtHead rc a) b) = val (store rc b)"
  "sizeBytes (store (insertAtHead rc a) b) = sizeBytes (store rc b)"
  "expiresAt (store (insertAtHead rc a) b) = expiresAt (store rc b)"
  by (simp_all add: insertAtHead_def Let_def split: option.splits)

lemma insertAtHead_list:
  assumes d: "dseg (store rc) None (head rc) xs (tail rc) None"
    and a: "a \<notin> set xs" and dist: "distinct xs"
  shows "dseg (store (insertAtHead rc a)) None (head (insertAtHead rc a)) (a # xs)
           (tail (insertAtHead rc a)) None"
proof (cases xs)
  case Nil
  then have "head rc = None" "tail rc = None" using d by auto
  then show ?thesis using Nil by (simp add: insertAtHead_def Let_def)
next
  case (Cons x xs')
  let ?h = "store rc"
  let ?h1 = "?h(a := (?h a)\<lparr>prev := None, nxt := head rc\<rparr>)"
  have hd: "head rc = Some x" using d Cons by simp
  have tl: "tail rc = Some (last xs)" using dseg_last [OF d] Cons by simp
  have ax: "a \<noteq> x" using a Cons by auto
  have ne: "xs \<noteq> []" and hx: "hd xs = x" using Cons by simp_all
  have d1: "dseg ?h1 None (head rc) xs (tail rc) None"
    using d dseg_upd_other [OF a, of ?h "(?h a)\<lparr>prev := None, nxt := head rc\<rparr>" None "head rc" "tail rc" None]
    by blast
  have d2: "dseg (?h1(hd xs := (?h1 (hd xs))\<lparr>prev := Some a\<rparr>)) (Some a) (head rc) xs (tail rc) None"
    by (rule dseg_retarget_prev [OF d1 ne dist])
  have st: "store (insertAtHead rc a) = ?h1(hd xs := (?h1 (hd xs))\<lparr>prev := Some a\<rparr>)"
    and hd': "head (insertAtHead rc a) = Some a" and tl': "tail (insertAtHead rc a) = tail rc"
    using hd tl hx by (simp_all add: insertAtHead_def Let_def)
  have pa: "prev (store (insertAtHead rc a) a) = None" and na: "nxt (store (insertAtHead rc a) a) = head rc"
    using ax hx by (simp_all add: st)
  show ?thesis
    unfolding dseg.simps hd' tl' pa na using d2 st by simp
qed

lemma moveToHead_fields:
  "fresh (moveToHead rc a) = fresh rc"
  "items (moveToHead rc a) = items rc"
  "maxBytes (moveToHead rc a) = maxBytes rc"
  "usedBytes (moveToHead rc a) = usedBytes rc"
  "ttl (moveToHead rc a) = ttl rc"
  by (simp_all add: moveToHead_def insertAtHead_fields detachNode_fields)

lemma moveToHead_data:
  "key (store (moveToHead rc a) b) = key (store rc b)"
  "val (store (moveToHead rc a) b) = val (store rc b)"
  "sizeBytes (store (moveToHead rc a) b) = sizeBytes (store rc b)"
  "expiresAt (store (moveToHead rc a) b) = expiresAt (store rc b)"
  by (simp_all add: moveToHead_def insertAtHead_data detachNode_data)

lemma moveToHead_list:
  assumes d: "dseg (store rc) None (head rc) (ys @ a # zs) (tail rc) None"
    and dist: "distinct (ys @ a # zs)"
  shows "dseg (store (moveToHead rc a)) None (head (moveToHead rc a)) (a # ys @ zs)
           (tail (moveToHead rc a)) None"
proof (cases "Some a = head rc")
  case True
  have "head rc = (if ys @ a # zs = [] then None else Some (hd (ys @ a # zs)))"
    using dseg_first [OF d] .
  then have "hd (ys @ a # zs) = a" using True by simp
  then have "ys = []" using dist by (cases ys) auto
  then show ?thesis using d True by (simp add: moveToHead_def)
next
  case False
  have "dseg (store (detachNode rc a)) None (head (detachNode rc a)) (ys @ zs) (tail (detachNode rc a)) None"
    using detachNode_list [OF d dist] .
  moreover have "a \<notin> set (ys @ zs)" "distinct (ys @ zs)" using dist by auto
  ultimately show ?thesis
    using False insertAtHead_list [of "detachNode rc a" "ys @ zs" a]
    by (simp add: moveToHead_def)
qed

lemma walk_dseg:
  "dseg h pr p xs lst None \<Longrightarrow> length xs \<le> n \<Longrightarrow> walk h p n = xs"
proof (induction xs arbitrary: pr p n)
  case Nil
  then show ?case by simp
next
  case (Cons a xs)
  then obtain m where n: "n = Suc m" by (cases n) auto
  have tl: "dseg h (Some a) (nxt (h a)) xs lst None" and p: "p = Some a"
    using Cons.prems by auto
  have "length xs \<le> m" using Cons.prems n by simp
  then have "walk h (nxt (h a)) m = xs" using Cons.IH [OF tl] by blast
  then show ?case by (simp add: n p)
qed

lemma length_le_bound:
  assumes "distinct xs" and "\<forall>a \<in> set xs. a < (n::nat)"
  shows "length xs \<le> n"
proof -
  have "set xs \<subseteq> {..<n}" using assms(2) by auto
  then have "card (set xs) \<le> card {..<n}" by (intro card_mono) auto
  then show ?thesis using assms(1) by (simp add: distinct_card)
qed

lemma cache_rel_recency:
  assumes "cache_rel rc xs"
  shows "recency_list rc = xs"
proof -
  have "dseg (store rc) None (head rc) xs (tail rc) None" "distinct xs" "\<forall>a \<in> set xs. a < fresh rc"
    using assms by (auto simp: cache_rel_def)
  then show ?thesis
    unfolding recency_list_def using walk_dseg length_le_bound by blast
qed

lemma cache_inv_iff: "cache_inv rc = (\<exists>xs. cache_rel rc xs)"
  using cache_rel_recency by (auto simp: cache_inv_def)

lemma cache_rel_entries:
  "cache_rel rc xs \<Longrightarrow> entries rc = map (entry_of rc) xs"
  by (simp add: entries_def cache_rel_recency)

lemma entry_of_eq:
  "key (store rc' b) = key (store rc b) \<Longrightarrow> val (store rc' b) = val (store rc b)
     \<Longrightarrow> expiresAt (store rc' b) = expiresAt (store rc b) \<Longrightarrow> entry_of rc' b = entry_of rc b"
  by (simp add: entry_of_def)

lemma evictNode_step_fields:
  "store (evictNode_step rc a) = store (detachNode rc a)"
  "head (evictNode_step rc a) = head (detachNode rc a)"
  "tail (evictNode_step rc a) = tail (detachNode rc a)"
  "items (evictNode_step rc a) = (items rc)(key (store rc a) := None)"
  "usedBytes (evictNode_step rc a) = usedBytes rc - sizeBytes (store rc a)"
  "fresh (evictNode_step rc a) = fresh rc"
  "maxBytes (evictNode_step rc a) = maxBytes rc"
  "ttl (evictNode_step rc a) = ttl rc"
  by (simp_all add: evictNode_step_def Let_def detachNode_fields detachNode_data)

lemma evictNode_step_entry: "entry_of (evictNode_step rc a) b = entry_of rc b"
  by (simp add: entry_of_def evictNode_step_fields detachNode_data)

lemma remove1_split: "distinct (ys @ a # zs) \<Longrightarrow> remove1 a (ys @ a # zs) = ys @ zs"
  by (simp add: remove1_append)

lemma sum_list_remove1_int:
  fixes f :: "'a \<Rightarrow> int"
  shows "a \<in> set xs \<Longrightarrow> sum_list (map f (remove1 a xs)) = sum_list (map f xs) - f a"
  by (induction xs) auto

lemma cache_rel_remove:
  assumes R: "cache_rel rc xs" and a: "a \<in> set xs"
  shows "cache_rel (evictNode_step rc a) (remove1 a xs)"
proof -
  let ?rc' = "evictNode_step rc a"
  obtain ys zs where xs: "xs = ys @ a # zs" using a by (auto dest: split_list)
  have dist: "distinct (ys @ a # zs)" using R xs by (simp add: cache_rel_def)
  have rem: "remove1 a xs = ys @ zs" using dist xs by (simp add: remove1_split)
  have d: "dseg (store rc) None (head rc) (ys @ a # zs) (tail rc) None"
    using R xs by (simp add: cache_rel_def)
  have in_xs: "\<forall>b \<in> set xs. b < fresh rc \<and> items rc (key (store rc b)) = Some b \<and>
          sizeBytes (store rc b) = approximateSize (key (store rc b)) (val (store rc b))"
    and idx: "\<forall>k b. items rc k = Some b \<longrightarrow> b \<in> set xs \<and> key (store rc b) = k"
    and used: "usedBytes rc = sum_list (map (\<lambda>b. sizeBytes (store rc b)) xs)"
    using R by (auto simp: cache_rel_def)
  have c1: "dseg (store ?rc') None (head ?rc') (remove1 a xs) (tail ?rc') None"
    using detachNode_list [OF d dist] by (simp add: rem evictNode_step_fields)
  have c2: "distinct (remove1 a xs)" using dist xs by simp
  have key_ne: "key (store rc b) \<noteq> key (store rc a)" if "b \<in> set (remove1 a xs)" for b
  proof
    assume eq: "key (store rc b) = key (store rc a)"
    have "b \<in> set xs" "b \<noteq> a" using that dist xs rem by auto
    then show False using in_xs a eq by (metis option.inject)
  qed
  have c3: "\<forall>b \<in> set (remove1 a xs). b < fresh ?rc' \<and> items ?rc' (key (store ?rc' b)) = Some b \<and>
          sizeBytes (store ?rc' b) = approximateSize (key (store ?rc' b)) (val (store ?rc' b))"
  proof
    fix b assume b: "b \<in> set (remove1 a xs)"
    then have "b \<in> set xs" using rem xs by auto
    then show "b < fresh ?rc' \<and> items ?rc' (key (store ?rc' b)) = Some b \<and>
          sizeBytes (store ?rc' b) = approximateSize (key (store ?rc' b)) (val (store ?rc' b))"
      using in_xs key_ne [OF b] by (simp add: evictNode_step_fields detachNode_data)
  qed
  have c4: "\<forall>k b. items ?rc' k = Some b \<longrightarrow> b \<in> set (remove1 a xs) \<and> key (store ?rc' b) = k"
  proof (intro allI impI)
    fix k b assume "items ?rc' k = Some b"
    then have k: "k \<noteq> key (store rc a)" and i: "items rc k = Some b"
      by (auto simp: evictNode_step_fields split: if_splits)
    then have "b \<in> set xs" "key (store rc b) = k" using idx by auto
    moreover from this k have "b \<noteq> a" by auto
    ultimately show "b \<in> set (remove1 a xs) \<and> key (store ?rc' b) = k"
      by (simp add: evictNode_step_fields detachNode_data)
  qed
  have c5: "usedBytes ?rc' = sum_list (map (\<lambda>b. sizeBytes (store ?rc' b)) (remove1 a xs))"
    using used a by (simp add: evictNode_step_fields detachNode_data sum_list_remove1_int)
  show ?thesis unfolding cache_rel_def using c1 c2 c3 c4 c5 by blast
qed

lemma Get_miss: "items rc k = None \<Longrightarrow> Get rc k now = (None, rc)"
  by (simp add: Get_def)

lemma Get_expired:
  assumes R: "cache_rel rc xs" and i: "items rc k = Some a" and e: "now > expiresAt (store rc a)"
  shows "Get rc k now = (None, evictNode_step rc a)"
proof -
  have "key (store rc a) = k" using R i by (auto simp: cache_rel_def)
  then show ?thesis
    using i e by (simp add: Get_def evictNode_step_def Let_def detachNode_fields detachNode_data)
qed

lemma Get_hit:
  assumes i: "items rc k = Some a" and e: "\<not> now > expiresAt (store rc a)"
  shows "Get rc k now = (Some (val (store rc a)), moveToHead rc a)"
  using i e by (simp add: Get_def Let_def moveToHead_data)

lemma cache_rel_move:
  assumes R: "cache_rel rc xs" and a: "a \<in> set xs"
  shows "cache_rel (moveToHead rc a) (a # remove1 a xs)"
proof -
  let ?rc' = "moveToHead rc a"
  obtain ys zs where xs: "xs = ys @ a # zs" using a by (auto dest: split_list)
  have dist: "distinct (ys @ a # zs)" using R xs by (simp add: cache_rel_def)
  have rem: "remove1 a xs = ys @ zs" using dist xs by (simp add: remove1_split)
  have d: "dseg (store rc) None (head rc) (ys @ a # zs) (tail rc) None"
    using R xs by (simp add: cache_rel_def)
  have in_xs: "\<forall>b \<in> set xs. b < fresh rc \<and> items rc (key (store rc b)) = Some b \<and>
          sizeBytes (store rc b) = approximateSize (key (store rc b)) (val (store rc b))"
    and idx: "\<forall>k b. items rc k = Some b \<longrightarrow> b \<in> set xs \<and> key (store rc b) = k"
    and used: "usedBytes rc = sum_list (map (\<lambda>b. sizeBytes (store rc b)) xs)"
    using R by (auto simp: cache_rel_def)
  have set_eq: "set (a # remove1 a xs) = set xs" using xs rem by auto
  have c1: "dseg (store ?rc') None (head ?rc') (a # remove1 a xs) (tail ?rc') None"
    using moveToHead_list [OF d dist] by (simp add: rem)
  have c2: "distinct (a # remove1 a xs)" using dist xs rem by auto
  have c3: "\<forall>b \<in> set (a # remove1 a xs). b < fresh ?rc' \<and> items ?rc' (key (store ?rc' b)) = Some b \<and>
          sizeBytes (store ?rc' b) = approximateSize (key (store ?rc' b)) (val (store ?rc' b))"
    unfolding set_eq using in_xs by (simp add: moveToHead_fields moveToHead_data)
  have c4: "\<forall>k b. items ?rc' k = Some b \<longrightarrow> b \<in> set (a # remove1 a xs) \<and> key (store ?rc' b) = k"
    unfolding set_eq using idx by (simp add: moveToHead_fields moveToHead_data)
  have "sum_list (map (\<lambda>b. sizeBytes (store rc b)) (a # remove1 a xs))
      = sum_list (map (\<lambda>b. sizeBytes (store rc b)) xs)"
    using a by (simp add: sum_list_remove1_int)
  then have c5: "usedBytes ?rc' = sum_list (map (\<lambda>b. sizeBytes (store ?rc' b)) (a # remove1 a xs))"
    using used by (simp add: moveToHead_fields moveToHead_data del: list.map)
  show ?thesis unfolding cache_rel_def using c1 c2 c3 c4 c5 by blast
qed

lemma moveToHead_entry: "entry_of (moveToHead rc a) b = entry_of rc b"
  by (simp add: entry_of_def moveToHead_data)

lemma detachNode_used_upd:
  "detachNode (rc\<lparr>usedBytes := u\<rparr>) a = (detachNode rc a)\<lparr>usedBytes := u\<rparr>"
  by (simp add: detachNode_def Let_def split: option.splits)

lemma insertAtHead_used_upd:
  "insertAtHead (rc\<lparr>usedBytes := u\<rparr>) a = (insertAtHead rc a)\<lparr>usedBytes := u\<rparr>"
  by (simp add: insertAtHead_def Let_def split: option.splits)

lemma moveToHead_used_upd:
  "moveToHead (rc\<lparr>usedBytes := u\<rparr>) a = (moveToHead rc a)\<lparr>usedBytes := u\<rparr>"
  by (simp add: moveToHead_def detachNode_used_upd insertAtHead_used_upd)

lemma sum_list_update_one:
  fixes f g :: "'a \<Rightarrow> int"
  assumes "distinct xs" "a \<in> set xs" "\<forall>b \<in> set xs. b \<noteq> a \<longrightarrow> g b = f b"
  shows "sum_list (map g xs) = sum_list (map f xs) - f a + g a"
  using assms by (induction xs) (auto intro!: arg_cong [where f = sum_list] map_cong)

lemma Store_put_existing:
  assumes R: "cache_rel rc xs" and i: "items rc k = Some a"
  shows "Store_put rc k v now = moveToHead (put_existing rc a v now) a"
proof -
  have k: "key (store rc a) = k" using R i by (auto simp: cache_rel_def)
  show ?thesis
    using i k
    by (simp add: Store_put_def Let_def put_existing_def moveToHead_used_upd [symmetric]
        moveToHead_fields)
qed

lemma cache_rel_put_existing:
  assumes R: "cache_rel rc xs" and a: "a \<in> set xs"
  shows "cache_rel (put_existing rc a v now) xs"
proof -
  let ?rc' = "put_existing rc a v now"
  have d: "dseg (store rc) None (head rc) xs (tail rc) None" and dist: "distinct xs"
    and in_xs: "\<forall>b \<in> set xs. b < fresh rc \<and> items rc (key (store rc b)) = Some b \<and>
          sizeBytes (store rc b) = approximateSize (key (store rc b)) (val (store rc b))"
    and idx: "\<forall>k b. items rc k = Some b \<longrightarrow> b \<in> set xs \<and> key (store rc b) = k"
    and used: "usedBytes rc = sum_list (map (\<lambda>b. sizeBytes (store rc b)) xs)"
    using R by (auto simp: cache_rel_def)
  have keys: "key (store ?rc' b) = key (store rc b)" for b
    by (simp add: put_existing_def)
  have c1: "dseg (store ?rc') None (head ?rc') xs (tail ?rc') None"
  proof -
    have "dseg (store ?rc') None (head rc) xs (tail rc) None = dseg (store rc) None (head rc) xs (tail rc) None"
      by (rule dseg_frame) (simp add: put_existing_def)
    then show ?thesis using d by (simp add: put_existing_def)
  qed
  have c3: "\<forall>b \<in> set xs. b < fresh ?rc' \<and> items ?rc' (key (store ?rc' b)) = Some b \<and>
          sizeBytes (store ?rc' b) = approximateSize (key (store ?rc' b)) (val (store ?rc' b))"
    using in_xs by (simp add: put_existing_def)
  have c4: "\<forall>k b. items ?rc' k = Some b \<longrightarrow> b \<in> set xs \<and> key (store ?rc' b) = k"
    using idx by (simp add: put_existing_def)
  have "sum_list (map (\<lambda>b. sizeBytes (store ?rc' b)) xs)
      = sum_list (map (\<lambda>b. sizeBytes (store rc b)) xs) - sizeBytes (store rc a) + sizeBytes (store ?rc' a)"
    by (rule sum_list_update_one [OF dist a]) (simp add: put_existing_def)
  then have c5: "usedBytes ?rc' = sum_list (map (\<lambda>b. sizeBytes (store ?rc' b)) xs)"
    using used by (simp add: put_existing_def)
  show ?thesis unfolding cache_rel_def using c1 dist c3 c4 c5 by blast
qed

lemma put_existing_entry:
  "entry_of (put_existing rc a v now) b =
     (if b = a then (key (store rc a), v, now + ttl rc) else entry_of rc b)"
  by (simp add: entry_of_def put_existing_def)

lemma put_existing_fields:
  "maxBytes (put_existing rc a v now) = maxBytes rc"
  "ttl (put_existing rc a v now) = ttl rc"
  "items (put_existing rc a v now) = items rc"
  by (simp_all add: put_existing_def)

lemma Store_put_new:
  assumes i: "items rc k = None"
  shows "Store_put rc k v now = insertAtHead (put_new rc k v now) (fresh rc)"
  using i
  by (simp add: Store_put_def Let_def put_new_def insertAtHead_used_upd [symmetric]
      insertAtHead_fields)

lemma cache_rel_put_new:
  assumes R: "cache_rel rc xs" and i: "items rc k = None"
  shows "cache_rel (insertAtHead (put_new rc k v now) (fresh rc)) (fresh rc # xs)"
proof -
  let ?a = "fresh rc"
  let ?rn = "put_new rc k v now"
  let ?rc' = "insertAtHead ?rn ?a"
  have d: "dseg (store rc) None (head rc) xs (tail rc) None" and dist: "distinct xs"
    and in_xs: "\<forall>b \<in> set xs. b < fresh rc \<and> items rc (key (store rc b)) = Some b \<and>
          sizeBytes (store rc b) = approximateSize (key (store rc b)) (val (store rc b))"
    and idx: "\<forall>k b. items rc k = Some b \<longrightarrow> b \<in> set xs \<and> key (store rc b) = k"
    and used: "usedBytes rc = sum_list (map (\<lambda>b. sizeBytes (store rc b)) xs)"
    using R by (auto simp: cache_rel_def)
  have a_new: "?a \<notin> set xs" using in_xs by auto
  have st: "store ?rn b = store rc b" if "b \<noteq> ?a" for b
    using that by (simp add: put_new_def)
  have sta: "store ?rn ?a = \<lparr>key = k, val = v, sizeBytes = approximateSize k v,
      expiresAt = now + ttl rc, prev = None, nxt = None\<rparr>"
    by (simp add: put_new_def)
  have st_xs: "store ?rn b = store rc b" if "b \<in> set xs" for b
  proof -
    have "b \<noteq> ?a" using that a_new by auto
    then show ?thesis by (rule st)
  qed
  have "dseg (store ?rn) None (head rc) xs (tail rc) None = dseg (store rc) None (head rc) xs (tail rc) None"
    by (rule dseg_frame) (simp add: st_xs)
  then have dn: "dseg (store ?rn) None (head ?rn) xs (tail ?rn) None"
    using d by (simp add: put_new_def)
  have c1: "dseg (store ?rc') None (head ?rc') (?a # xs) (tail ?rc') None"
    by (rule insertAtHead_list [OF dn a_new dist])
  have c2: "distinct (?a # xs)" using a_new dist by simp
  have key_ne: "key (store rc b) \<noteq> k" if "b \<in> set xs" for b
    using that in_xs i by auto
  have c3: "\<forall>b \<in> set (?a # xs). b < fresh ?rc' \<and> items ?rc' (key (store ?rc' b)) = Some b \<and>
          sizeBytes (store ?rc' b) = approximateSize (key (store ?rc' b)) (val (store ?rc' b))"
  proof
    fix b assume b: "b \<in> set (?a # xs)"
    show "b < fresh ?rc' \<and> items ?rc' (key (store ?rc' b)) = Some b \<and>
          sizeBytes (store ?rc' b) = approximateSize (key (store ?rc' b)) (val (store ?rc' b))"
    proof (cases "b = ?a")
      case True
      then show ?thesis
        by (simp add: insertAtHead_fields insertAtHead_data sta) (simp add: put_new_def)
    next
      case False
      then have bx: "b \<in> set xs" using b by simp
      have "b < fresh rc" "items rc (key (store rc b)) = Some b"
        "sizeBytes (store rc b) = approximateSize (key (store rc b)) (val (store rc b))"
        using in_xs bx by auto
      then show ?thesis
        using key_ne [OF bx] bx
        by (simp add: insertAtHead_fields insertAtHead_data st_xs) (simp add: put_new_def)
    qed
  qed
  have c4: "\<forall>k' b. items ?rc' k' = Some b \<longrightarrow> b \<in> set (?a # xs) \<and> key (store ?rc' b) = k'"
  proof (intro allI impI)
    fix k' b assume ib: "items ?rc' k' = Some b"
    show "b \<in> set (?a # xs) \<and> key (store ?rc' b) = k'"
    proof (cases "k' = k")
      case True
      then have "b = ?a" using ib by (simp add: insertAtHead_fields put_new_def)
      then show ?thesis using True by (simp add: insertAtHead_data sta)
    next
      case False
      then have "items rc k' = Some b" using ib by (simp add: insertAtHead_fields put_new_def)
      then have "b \<in> set xs" "key (store rc b) = k'" using idx by auto
      then show ?thesis by (simp add: insertAtHead_data st_xs)
    qed
  qed
  have "sum_list (map (\<lambda>b. sizeBytes (store ?rc' b)) xs) = sum_list (map (\<lambda>b. sizeBytes (store rc b)) xs)"
    by (rule arg_cong [where f = sum_list], rule map_cong)
       (simp_all add: insertAtHead_data st_xs)
  then have c5: "usedBytes ?rc' = sum_list (map (\<lambda>b. sizeBytes (store ?rc' b)) (?a # xs))"
    using used by (simp add: insertAtHead_fields insertAtHead_data sta) (simp add: put_new_def)
  show ?thesis unfolding cache_rel_def using c1 c2 c3 c4 c5 by blast
qed

lemma put_new_entry:
  "entry_of (insertAtHead (put_new rc k v now) (fresh rc)) b =
     (if b = fresh rc then (k, v, now + ttl rc) else entry_of rc b)"
  by (simp add: entry_of_def insertAtHead_data put_new_def)

lemma put_new_fields:
  "maxBytes (insertAtHead (put_new rc k v now) (fresh rc)) = maxBytes rc"
  "ttl (insertAtHead (put_new rc k v now) (fresh rc)) = ttl rc"
  "items (insertAtHead (put_new rc k v now) (fresh rc)) = (items rc)(k \<mapsto> fresh rc)"
  by (simp_all add: insertAtHead_fields put_new_def)

lemma find_map_unique:
  "a \<in> set xs \<Longrightarrow> P (f a) \<Longrightarrow> \<forall>b \<in> set xs. b \<noteq> a \<longrightarrow> \<not> P (f b) \<Longrightarrow> find P (map f xs) = Some (f a)"
  by (induction xs) auto

lemma find_map_none: "\<forall>b \<in> set xs. \<not> P (f b) \<Longrightarrow> find P (map f xs) = None"
  by (induction xs) auto

lemma filter_map_remove1:
  "distinct xs \<Longrightarrow> a \<in> set xs \<Longrightarrow> \<not> Q (f a) \<Longrightarrow> \<forall>b \<in> set xs. b \<noteq> a \<longrightarrow> Q (f b)
     \<Longrightarrow> filter Q (map f xs) = map f (remove1 a xs)"
proof (induction xs)
  case Nil
  then show ?case by simp
next
  case (Cons x xs)
  show ?case
  proof (cases "x = a")
    case True
    then have "a \<notin> set xs" using Cons.prems(1) by simp
    then have "\<forall>b \<in> set xs. Q (f b)" using Cons.prems(4) by auto
    then have "filter Q (map f xs) = map f xs" by (induction xs) auto
    then show ?thesis using True Cons.prems(3) by simp
  next
    case False
    then show ?thesis using Cons by auto
  qed
qed

lemma filter_map_all: "\<forall>b \<in> set xs. Q (f b) \<Longrightarrow> filter Q (map f xs) = map f xs"
  by (induction xs) auto

lemma cache_rel_keys:
  assumes R: "cache_rel rc xs"
  shows "items rc k = Some a \<Longrightarrow> a \<in> set xs \<and> fst (entry_of rc a) = k
           \<and> (\<forall>b \<in> set xs. b \<noteq> a \<longrightarrow> fst (entry_of rc b) \<noteq> k)"
    and "items rc k = None \<Longrightarrow> \<forall>b \<in> set xs. fst (entry_of rc b) \<noteq> k"
proof -
  have in_xs: "items rc (key (store rc b)) = Some b" if "b \<in> set xs" for b
    using R that by (simp add: cache_rel_def)
  have idx: "b \<in> set xs \<and> key (store rc b) = k'" if "items rc k' = Some b" for k' b
    using R that by (simp add: cache_rel_def)
  have fk: "fst (entry_of rc b) = key (store rc b)" for b
    by (simp add: entry_of_def)
  show "a \<in> set xs \<and> fst (entry_of rc a) = k
           \<and> (\<forall>b \<in> set xs. b \<noteq> a \<longrightarrow> fst (entry_of rc b) \<noteq> k)"
    if i: "items rc k = Some a"
  proof (intro conjI ballI impI)
    show "a \<in> set xs" using idx [OF i] by simp
    show "fst (entry_of rc a) = k" using idx [OF i] by (simp add: fk)
    fix b assume b: "b \<in> set xs" "b \<noteq> a"
    show "fst (entry_of rc b) \<noteq> k"
    proof
      assume "fst (entry_of rc b) = k"
      then have "items rc k = Some b" using in_xs [OF b(1)] by (simp add: fk)
      then show False using i b(2) by simp
    qed
  qed
  show "\<forall>b \<in> set xs. fst (entry_of rc b) \<noteq> k" if n: "items rc k = None"
  proof
    fix b assume b: "b \<in> set xs"
    show "fst (entry_of rc b) \<noteq> k"
    proof
      assume "fst (entry_of rc b) = k"
      then have "items rc k = Some b" using in_xs [OF b] by (simp add: fk)
      then show False using n by simp
    qed
  qed
qed

lemma total_cost_entries:
  assumes R: "cache_rel rc xs"
  shows "total_cost (entries rc) = usedBytes rc"
proof -
  have sz: "e_cost (entry_of rc b) = sizeBytes (store rc b)" if "b \<in> set xs" for b
    using R that by (simp add: cache_rel_def entry_of_def)
  have "map e_cost (map (entry_of rc) xs) = map (\<lambda>b. sizeBytes (store rc b)) xs"
    unfolding map_map by (rule map_cong) (simp_all add: sz)
  moreover have "usedBytes rc = sum_list (map (\<lambda>b. sizeBytes (store rc b)) xs)"
    using R by (simp add: cache_rel_def)
  ultimately show ?thesis
    by (simp only: total_cost_def cache_rel_entries [OF R])
qed

lemma cache_rel_tail:
  "cache_rel rc xs \<Longrightarrow> tail rc = (if xs = [] then None else Some (last xs))"
  using dseg_last [of "store rc" None "head rc" xs "tail rc" None] by (simp add: cache_rel_def)

lemma cache_rel_head:
  "cache_rel rc xs \<Longrightarrow> head rc = (if xs = [] then None else Some (hd xs))"
  using dseg_first [of "store rc" None "head rc" xs "tail rc" None] by (simp add: cache_rel_def)

lemma cache_rel_empty_items:
  "cache_rel rc [] \<Longrightarrow> items rc = Map.empty"
proof -
  assume R: "cache_rel rc []"
  have "items rc k = None" for k
  proof (cases "items rc k")
    case None
    then show ?thesis .
  next
    case (Some a)
    then show ?thesis using R by (auto simp: cache_rel_def)
  qed
  then show ?thesis by auto
qed

lemma evictToCapacity_refines:
  "cache_rel rc xs \<Longrightarrow>
     \<exists>rc' xs'. evictToCapacity rc = Some rc' \<and> cache_rel rc' xs'
       \<and> entries rc' = lru_evict (maxBytes rc) (entries rc)
       \<and> maxBytes rc' = maxBytes rc \<and> ttl rc' = ttl rc"
proof (induction xs arbitrary: rc rule: rev_induct)
  case Nil
  have "tail rc = None" using cache_rel_tail [OF Nil] by simp
  then have ev: "evictToCapacity rc = Some rc"
    by (subst evictToCapacity.simps) simp
  have "entries rc = []" using cache_rel_entries [OF Nil] by simp
  then have "lru_evict (maxBytes rc) (entries rc) = entries rc"
    by (subst lru_evict.simps) simp
  then show ?case using ev Nil by auto
next
  case (snoc a ys)
  have tl: "tail rc = Some a" using cache_rel_tail [OF snoc.prems] by simp
  have es: "entries rc = map (entry_of rc) (ys @ [a])"
    using cache_rel_entries [OF snoc.prems] .
  have cost: "total_cost (entries rc) = usedBytes rc"
    using total_cost_entries [OF snoc.prems] .
  show ?case
  proof (cases "usedBytes rc > maxBytes rc")
    case False
    have ev: "evictToCapacity rc = Some rc"
      using False by (subst evictToCapacity.simps) simp
    have "lru_evict (maxBytes rc) (entries rc) = entries rc"
      using False cost by (subst lru_evict.simps) simp
    then show ?thesis using ev snoc.prems by auto
  next
    case True
    let ?rc1 = "evictNode_step rc a"
    have ev: "evictToCapacity rc = evictToCapacity ?rc1"
      using True tl by (subst evictToCapacity.simps) simp
    have dist: "distinct (ys @ [a])" using snoc.prems by (simp add: cache_rel_def)
    then have rem: "remove1 a (ys @ [a]) = ys" by (simp add: remove1_append)
    have R1: "cache_rel ?rc1 ys"
      using cache_rel_remove [OF snoc.prems, of a] rem by simp
    have es1: "entries ?rc1 = butlast (entries rc)"
      using cache_rel_entries [OF R1] es by (simp add: evictNode_step_entry butlast_append)
    obtain rc' xs' where res: "evictToCapacity ?rc1 = Some rc'" "cache_rel rc' xs'"
      "entries rc' = lru_evict (maxBytes ?rc1) (entries ?rc1)"
      "maxBytes rc' = maxBytes ?rc1" "ttl rc' = ttl ?rc1"
      using snoc.IH [OF R1] by blast
    have "lru_evict (maxBytes rc) (entries rc) = lru_evict (maxBytes rc) (butlast (entries rc))"
      using True cost es by (subst lru_evict.simps) simp
    then show ?thesis
      using ev res es1 by (auto simp: evictNode_step_fields)
  qed
qed

lemma Store_put_refines:
  assumes R: "cache_rel rc xs"
  shows "\<exists>xs'. cache_rel (Store_put rc k v now) xs'
       \<and> entries (Store_put rc k v now) = lru_put (entries rc) k v (now + ttl rc)
       \<and> maxBytes (Store_put rc k v now) = maxBytes rc \<and> ttl (Store_put rc k v now) = ttl rc"
proof (cases "items rc k")
  case None
  let ?rc' = "insertAtHead (put_new rc k v now) (fresh rc)"
  have eq: "Store_put rc k v now = ?rc'" using Store_put_new [OF None] .
  have R': "cache_rel ?rc' (fresh rc # xs)" using cache_rel_put_new [OF R None] .
  have new: "fresh rc \<notin> set xs" using R by (auto simp: cache_rel_def)
  have "map (entry_of ?rc') xs = map (entry_of rc) xs"
    using new by (intro map_cong) (auto simp: put_new_entry)
  then have "entries ?rc' = (k, v, now + ttl rc) # entries rc"
    using cache_rel_entries [OF R'] cache_rel_entries [OF R] by (simp add: put_new_entry)
  moreover have "filter (\<lambda>e. fst e \<noteq> k) (entries rc) = entries rc"
    unfolding cache_rel_entries [OF R]
    using cache_rel_keys(2) [OF R None] by (intro filter_map_all) simp
  ultimately have "entries ?rc' = lru_put (entries rc) k v (now + ttl rc)"
    by (simp add: lru_put_def)
  then show ?thesis using R' eq by (auto simp: put_new_fields)
next
  case (Some a)
  let ?rp = "put_existing rc a v now"
  let ?rc' = "moveToHead ?rp a"
  have eq: "Store_put rc k v now = ?rc'" using Store_put_existing [OF R Some] .
  have ka: "a \<in> set xs" "fst (entry_of rc a) = k" "\<forall>b \<in> set xs. b \<noteq> a \<longrightarrow> fst (entry_of rc b) \<noteq> k"
    using cache_rel_keys(1) [OF R Some] by auto
  have dist: "distinct xs" using R by (simp add: cache_rel_def)
  have Rp: "cache_rel ?rp xs" using cache_rel_put_existing [OF R ka(1)] .
  have R': "cache_rel ?rc' (a # remove1 a xs)" using cache_rel_move [OF Rp ka(1)] .
  have key_a: "key (store rc a) = k" using ka(2) by (simp add: entry_of_def)
  have "map (entry_of ?rc') (remove1 a xs) = map (entry_of rc) (remove1 a xs)"
    using dist by (intro map_cong) (auto simp: moveToHead_entry put_existing_entry)
  then have e1: "entries ?rc' = (k, v, now + ttl rc) # map (entry_of rc) (remove1 a xs)"
    using cache_rel_entries [OF R'] key_a by (simp add: moveToHead_entry put_existing_entry)
  have "filter (\<lambda>e. fst e \<noteq> k) (map (entry_of rc) xs) = map (entry_of rc) (remove1 a xs)"
    using ka by (intro filter_map_remove1 [OF dist]) auto
  then have "entries ?rc' = lru_put (entries rc) k v (now + ttl rc)"
    using e1 by (simp add: lru_put_def cache_rel_entries [OF R])
  then show ?thesis
    using R' eq by (auto simp: moveToHead_fields put_existing_fields)
qed

lemma Store_refines:
  assumes R: "cache_rel rc xs"
  shows "\<exists>rc' xs'. Store rc k v now = Some rc' \<and> cache_rel rc' xs'
       \<and> entries rc' = lru_store (maxBytes rc) (entries rc) k v (now + ttl rc)
       \<and> maxBytes rc' = maxBytes rc \<and> ttl rc' = ttl rc"
proof -
  obtain xs1 where p: "cache_rel (Store_put rc k v now) xs1"
    "entries (Store_put rc k v now) = lru_put (entries rc) k v (now + ttl rc)"
    "maxBytes (Store_put rc k v now) = maxBytes rc" "ttl (Store_put rc k v now) = ttl rc"
    using Store_put_refines [OF R] by blast
  show ?thesis
    using evictToCapacity_refines [OF p(1)] p(2,3,4)
    by (auto simp: Store_def lru_store_def)
qed

lemma Get_refines:
  assumes R: "cache_rel rc xs"
  shows "\<exists>xs'. cache_rel (snd (Get rc k now)) xs'
       \<and> entries (snd (Get rc k now)) = snd (lru_get (entries rc) k now)
       \<and> fst (Get rc k now) = fst (lru_get (entries rc) k now)
       \<and> maxBytes (snd (Get rc k now)) = maxBytes rc \<and> ttl (snd (Get rc k now)) = ttl rc"
proof (cases "items rc k")
  case None
  have "find (\<lambda>e. fst e = k) (entries rc) = None"
    unfolding cache_rel_entries [OF R]
    using cache_rel_keys(2) [OF R None] by (intro find_map_none) simp
  then show ?thesis using R None by (auto simp: Get_miss lru_get_def)
next
  case (Some a)
  have ka: "a \<in> set xs" "fst (entry_of rc a) = k" "\<forall>b \<in> set xs. b \<noteq> a \<longrightarrow> fst (entry_of rc b) \<noteq> k"
    using cache_rel_keys(1) [OF R Some] by auto
  have dist: "distinct xs" using R by (simp add: cache_rel_def)
  have f: "find (\<lambda>e. fst e = k) (entries rc) = Some (entry_of rc a)"
    unfolding cache_rel_entries [OF R]
    using ka by (intro find_map_unique) auto
  have flt: "filter (\<lambda>e. fst e \<noteq> k) (entries rc) = map (entry_of rc) (remove1 a xs)"
    unfolding cache_rel_entries [OF R]
    using ka by (intro filter_map_remove1 [OF dist]) auto
  have ea: "entry_of rc a = (k, val (store rc a), expiresAt (store rc a))"
    using ka(2) by (simp add: entry_of_def)
  show ?thesis
  proof (cases "now > expiresAt (store rc a)")
    case True
    let ?rc' = "evictNode_step rc a"
    have g: "Get rc k now = (None, ?rc')" using Get_expired [OF R Some True] .
    have R': "cache_rel ?rc' (remove1 a xs)" using cache_rel_remove [OF R ka(1)] .
    have "entries ?rc' = map (entry_of rc) (remove1 a xs)"
      using cache_rel_entries [OF R'] by (simp add: evictNode_step_entry)
    then show ?thesis
      using R' g f flt ea True by (auto simp: lru_get_def evictNode_step_fields)
  next
    case False
    let ?rc' = "moveToHead rc a"
    have g: "Get rc k now = (Some (val (store rc a)), ?rc')" using Get_hit [OF Some False] .
    have R': "cache_rel ?rc' (a # remove1 a xs)" using cache_rel_move [OF R ka(1)] .
    have "entries ?rc' = entry_of rc a # map (entry_of rc) (remove1 a xs)"
      using cache_rel_entries [OF R'] by (simp add: moveToHead_entry)
    then show ?thesis
      using R' g f flt ea False by (auto simp: lru_get_def moveToHead_fields)
  qed
qed

lemma cache_rel_prev:
  assumes R: "cache_rel rc (ys @ c # zs)"
  shows "prev (store rc c) = (if ys = [] then None else Some (last ys))"
proof -
  have "dseg (store rc) None (head rc) (ys @ c # zs) (tail rc) None"
    using R by (simp add: cache_rel_def)
  then obtain m ml where a: "dseg (store rc) None (head rc) ys ml m"
    and b: "dseg (store rc) ml m (c # zs) (tail rc) None"
    unfolding dseg_append by blast
  have "ml = (if ys = [] then None else Some (last ys))" using dseg_last [OF a] .
  moreover have "prev (store rc c) = ml" using b by simp
  ultimately show ?thesis by simp
qed

lemma cleanup_from_refines:
  "cache_rel rc (ys @ zs) \<Longrightarrow> current = (if ys = [] then None else Some (last ys)) \<Longrightarrow>
     \<exists>rc' xs'. cleanup_from rc now current = Some rc' \<and> cache_rel rc' xs'
       \<and> entries rc' = lru_sweep (map (entry_of rc) ys) now @ map (entry_of rc) zs
       \<and> maxBytes rc' = maxBytes rc \<and> ttl rc' = ttl rc"
proof (induction ys arbitrary: rc zs current rule: rev_induct)
  case Nil
  have "cleanup_from rc now current = Some rc"
    using Nil(2) by (subst cleanup_from.simps) simp
  moreover have "entries rc = map (entry_of rc) zs"
    using cache_rel_entries [of rc zs] Nil(1) by simp
  ultimately show ?case using Nil(1) by (auto simp: lru_sweep_def)
next
  case (snoc c ys)
  let ?p = "if ys = [] then None else Some (last ys)"
  have R: "cache_rel rc (ys @ c # zs)" using snoc.prems(1) by simp
  have cur: "current = Some c" using snoc.prems(2) by simp
  have p: "prev (store rc c) = ?p" using cache_rel_prev [OF R] .
  show ?case
  proof (cases "now > expiresAt (store rc c)")
    case True
    let ?rc1 = "evictNode_step rc c"
    have step: "cleanup_from rc now current = cleanup_from ?rc1 now ?p"
      unfolding cur using True p by (subst cleanup_from.simps) (simp add: Let_def)
    have dist: "distinct (ys @ c # zs)" using R by (simp add: cache_rel_def)
    have R1: "cache_rel ?rc1 (ys @ zs)"
      using cache_rel_remove [OF R, of c] remove1_split [OF dist] by simp
    obtain rc' xs' where res: "cleanup_from ?rc1 now ?p = Some rc'" "cache_rel rc' xs'"
      "entries rc' = lru_sweep (map (entry_of ?rc1) ys) now @ map (entry_of ?rc1) zs"
      "maxBytes rc' = maxBytes ?rc1" "ttl rc' = ttl ?rc1"
      using snoc.IH [OF R1 refl] by blast
    have "lru_sweep (map (entry_of rc) (ys @ [c])) now = lru_sweep (map (entry_of rc) ys) now"
      using True by (simp add: lru_sweep_def entry_of_def)
    moreover have "entry_of ?rc1 = entry_of rc"
      by (rule ext) (rule evictNode_step_entry)
    ultimately show ?thesis
      using step res by (auto simp: evictNode_step_fields)
  next
    case False
    have step: "cleanup_from rc now current = cleanup_from rc now ?p"
      unfolding cur using False p by (subst cleanup_from.simps) (simp add: Let_def)
    obtain rc' xs' where res: "cleanup_from rc now ?p = Some rc'" "cache_rel rc' xs'"
      "entries rc' = lru_sweep (map (entry_of rc) ys) now @ map (entry_of rc) (c # zs)"
      "maxBytes rc' = maxBytes rc" "ttl rc' = ttl rc"
      using snoc.IH [OF R refl] by blast
    have "lru_sweep (map (entry_of rc) (ys @ [c])) now
        = lru_sweep (map (entry_of rc) ys) now @ [entry_of rc c]"
      using False by (simp add: lru_sweep_def entry_of_def)
    then show ?thesis
      using step res by auto
  qed
qed

lemma cleanupExpired_refines:
  assumes R: "cache_rel rc xs"
  shows "\<exists>rc' xs'. cleanupExpired rc now = Some rc' \<and> cache_rel rc' xs'
       \<and> entries rc' = lru_sweep (entries rc) now
       \<and> maxBytes rc' = maxBytes rc \<and> ttl rc' = ttl rc"
  using cleanup_from_refines [of rc xs "[]" "tail rc" now] R cache_rel_tail [OF R]
    cache_rel_entries [OF R]
  by (simp add: cleanupExpired_def)

lemma cache_rel_New: "cache_rel (NewResponseCache ttl0 mb) []"
  by (simp add: cache_rel_def NewResponseCache_def)

lemma run_ops_refines:
  "cache_rel rc xs \<Longrightarrow>
     \<exists>rc' xs'. run_ops rc ops = Some rc' \<and> cache_rel rc' xs' \<and> maxBytes rc' = maxBytes rc \<and> ttl rc' = ttl rc"
proof (induction ops arbitrary: rc xs)
  case Nil
  then show ?case by auto
next
  case (Cons op ops)
  show ?case
  proof (cases op)
    case (OpStore k v now)
    obtain rc1 xs1 where s: "Store rc k v now = Some rc1" "cache_rel rc1 xs1"
      "maxBytes rc1 = maxBytes rc" "ttl rc1 = ttl rc"
      using Store_refines [OF Cons.prems, of k v now] by blast
    show ?thesis using Cons.IH [OF s(2)] s OpStore by auto
  next
    case (OpGet k now)
    obtain xs1 where g: "cache_rel (snd (Get rc k now)) xs1"
      "maxBytes (snd (Get rc k now)) = maxBytes rc" "ttl (snd (Get rc k now)) = ttl rc"
      using Get_refines [OF Cons.prems, of k now] by blast
    show ?thesis using Cons.IH [OF g(1)] g OpGet by auto
  next
    case (OpCleanup now)
    obtain rc1 xs1 where s: "cleanupExpired rc now = Some rc1" "cache_rel rc1 xs1"
      "maxBytes rc1 = maxBytes rc" "ttl rc1 = ttl rc"
      using cleanupExpired_refines [OF Cons.prems, of now] by blast
    show ?thesis using Cons.IH [OF s(2)] s OpCleanup by auto
  qed
qed

lemma run_ops_append:
  "run_ops rc (ops @ ops') = (case run_ops rc ops of None \<Rightarrow> None | Some rc' \<Rightarrow> run_ops rc' ops')"
proof (induction ops arbitrary: rc)
  case Nil
  then show ?case by simp
next
  case (Cons op ops)
  then show ?case by (cases op) (auto split: option.splits)
qed

lemma reachable_rel:
  assumes "run_ops (NewResponseCache ttl0 mb) ops = Some rc"
  shows "\<exists>xs. cache_rel rc xs" and "maxBytes rc = mb" and "ttl rc = ttl0"
  using run_ops_refines [OF cache_rel_New, of ttl0 mb ops] assms
  by (auto simp: NewResponseCache_def)

lemma e_cost_pos: "e_cost e > 0"
  by (cases e) (simp add: approximateSize_def nodeOverhead_def)

lemma total_cost_nonneg: "total_cost es \<ge> 0"
proof (induction es)
  case Nil
  then show ?case by (simp add: total_cost_def)
next
  case (Cons e es)
  then show ?case using e_cost_pos [of e] by (simp add: total_cost_def)
qed

lemma lru_evict_bound: "total_cost (lru_evict mb es) \<le> mb \<or> lru_evict mb es = []"
proof (induction mb es rule: lru_evict.induct)
  case (1 mb es)
  show ?case
  proof (cases "total_cost es > mb \<and> es \<noteq> []")
    case True
    then have "lru_evict mb es = lru_evict mb (butlast es)"
      by (subst lru_evict.simps) simp
    then show ?thesis using "1.IH" True by simp
  next
    case False
    then have "lru_evict mb es = es" by (subst lru_evict.simps) auto
    then show ?thesis using False by auto
  qed
qed

lemma Store_within_budget:
  assumes R: "cache_rel rc xs" and s: "Store rc k v now = Some rc'" and mb: "0 \<le> maxBytes rc"
  shows "usedBytes rc' \<le> maxBytes rc'"
proof -
  obtain xs' where r: "cache_rel rc' xs'"
    "entries rc' = lru_store (maxBytes rc) (entries rc) k v (now + ttl rc)"
    "maxBytes rc' = maxBytes rc"
    using Store_refines [OF R, of k v now] s by auto
  have "total_cost (entries rc') \<le> maxBytes rc \<or> entries rc' = []"
    unfolding r(2) lru_store_def by (rule lru_evict_bound)
  then have "total_cost (entries rc') \<le> maxBytes rc"
    using mb by (auto simp: total_cost_def)
  then show ?thesis using total_cost_entries [OF r(1)] r(3) by simp
qed

lemma live_cost_used:
  assumes R: "cache_rel rc xs"
  shows "live_cost rc = usedBytes rc"
proof -
  let ?kf = "\<lambda>b. key (store rc b)"
  have in_xs: "items rc (?kf b) = Some b" 
    and sz: "sizeBytes (store rc b) = approximateSize (?kf b) (val (store rc b))" if "b \<in> set xs" for b
    using R that by (simp_all add: cache_rel_def)
  have idx: "b \<in> set xs \<and> ?kf b = k" if "items rc k = Some b" for k b
    using R that by (simp add: cache_rel_def)
  have dist: "distinct xs" and used: "usedBytes rc = sum_list (map (\<lambda>b. sizeBytes (store rc b)) xs)"
    using R by (simp_all add: cache_rel_def)
  have inj: "inj_on ?kf (set xs)"
  proof (rule inj_onI)
    fix b c assume b: "b \<in> set xs" and c: "c \<in> set xs" and eq: "?kf b = ?kf c"
    have "Some b = items rc (?kf b)" using in_xs [OF b] by simp
    also have "\<dots> = items rc (?kf c)" by (simp only: eq)
    also have "\<dots> = Some c" using in_xs [OF c] by simp
    finally show "b = c" by simp
  qed
  have dom: "dom (items rc) = ?kf ` set xs"
  proof (rule set_eqI)
    fix k
    show "k \<in> dom (items rc) \<longleftrightarrow> k \<in> ?kf ` set xs"
    proof
      assume "k \<in> dom (items rc)"
      then obtain b where "items rc k = Some b" by auto
      then show "k \<in> ?kf ` set xs" using idx by blast
    next
      assume "k \<in> ?kf ` set xs"
      then obtain b where "b \<in> set xs" "k = ?kf b" by auto
      then show "k \<in> dom (items rc)" using in_xs by auto
    qed
  qed
  have "live_cost rc = (\<Sum>b \<in> set xs. approximateSize (?kf b) (val (store rc (the (items rc (?kf b))))))"
    unfolding live_cost_def dom by (simp add: sum.reindex [OF inj])
  also have "\<dots> = (\<Sum>b \<in> set xs. sizeBytes (store rc b))"
    by (rule sum.cong) (simp_all add: in_xs sz)
  also have "\<dots> = sum_list (map (\<lambda>b. sizeBytes (store rc b)) xs)"
    using dist by (simp add: sum_list_distinct_conv_sum_set)
  finally show ?thesis using used by simp
qed

lemma items_dom_entries:
  assumes R: "cache_rel rc xs"
  shows "(items rc k \<noteq> None) = (k \<in> fst ` set (entries rc))"
proof (cases "items rc k")
  case None
  then show ?thesis
    using cache_rel_keys(2) [OF R None] by (auto simp: cache_rel_entries [OF R])
next
  case (Some a)
  have "a \<in> set xs" "fst (entry_of rc a) = k" using cache_rel_keys(1) [OF R Some] by auto
  then have "k \<in> fst ` set (entries rc)"
    unfolding cache_rel_entries [OF R] by force
  then show ?thesis using Some by simp
qed

lemma recency_keys_entries: "recency_keys rc = map fst (entries rc)"
  by (simp add: recency_keys_def entries_def entry_of_def)

lemma cache_rel_no_entries:
  assumes R: "cache_rel rc xs" and e: "entries rc = []"
  shows "items rc = Map.empty \<and> head rc = None \<and> tail rc = None \<and> usedBytes rc = 0
     \<and> recency_list rc = []"
proof -
  have xs: "xs = []" using e cache_rel_entries [OF R] by simp
  then have R0: "cache_rel rc []" using R by simp
  show ?thesis
    using cache_rel_empty_items [OF R0] cache_rel_head [OF R0] cache_rel_tail [OF R0]
      cache_rel_recency [OF R0] R0
    by (simp add: cache_rel_def)
qed

lemma lru_evict_oversized:
  "e_cost e > mb \<Longrightarrow> lru_evict mb (e # es) = []"
proof (induction es rule: rev_induct)
  case Nil
  have "total_cost [e] > mb" using Nil by (simp add: total_cost_def)
  then have "lru_evict mb [e] = lru_evict mb []" by (subst lru_evict.simps) simp
  also have "\<dots> = []" by (subst lru_evict.simps) simp
  finally show ?case .
next
  case (snoc x es)
  have "total_cost (e # es @ [x]) = e_cost e + total_cost (es @ [x])"
    by (simp add: total_cost_def)
  then have "total_cost (e # es @ [x]) > mb"
    using snoc.prems total_cost_nonneg [of "es @ [x]"] by simp
  then have "lru_evict mb (e # es @ [x]) = lru_evict mb (butlast (e # es @ [x]))"
    by (subst lru_evict.simps) simp
  also have "\<dots> = lru_evict mb (e # es)" by (simp add: butlast_append)
  finally show ?case using snoc by simp
qed

lemma Get_miss_absent:
  assumes R: "cache_rel rc xs" and m: "fst (Get rc k now) = None"
  shows "items (snd (Get rc k now)) k = None"
proof (cases "items rc k")
  case None
  then show ?thesis by (simp add: Get_miss)
next
  case (Some a)
  show ?thesis
  proof (cases "now > expiresAt (store rc a)")
    case True
    have "key (store rc a) = k" using R Some by (auto simp: cache_rel_def)
    then show ?thesis using Get_expired [OF R Some True] by (simp add: evictNode_step_fields)
  next
    case False
    then show ?thesis using Get_hit [OF Some False] m by simp
  qed
qed

lemma lru_evict_keeps_head:
  "e_cost e \<le> mb \<Longrightarrow> \<exists>es'. lru_evict mb (e # es) = e # es'"
proof (induction es rule: rev_induct)
  case Nil
  have "total_cost [e] \<le> mb" using Nil by (simp add: total_cost_def)
  then have "lru_evict mb [e] = [e]" by (subst lru_evict.simps) simp
  then show ?case by simp
next
  case (snoc x es)
  show ?case
  proof (cases "total_cost (e # es @ [x]) > mb")
    case True
    then have "lru_evict mb (e # es @ [x]) = lru_evict mb (butlast (e # es @ [x]))"
      by (subst lru_evict.simps) simp
    also have "\<dots> = lru_evict mb (e # es)" by (simp add: butlast_append)
    finally show ?thesis using snoc by simp
  next
    case False
    then have "lru_evict mb (e # es @ [x]) = e # es @ [x]"
      by (subst lru_evict.simps) simp
    then show ?thesis by simp
  qed
qed

lemma Store_holds:
  assumes R: "cache_rel rc xs" and fits: "approximateSize k v \<le> maxBytes rc"
  shows "\<exists>rc'. Store rc k v now = Some rc' \<and> peek rc' k = Some v \<and> hd (recency_keys rc') = k
     \<and> (\<forall>t. \<not> t > now + ttl rc \<longrightarrow> fst (Get rc' k t) = Some v)"
proof -
  obtain rc' xs' where s: "Store rc k v now = Some rc'" "cache_rel rc' xs'"
    "entries rc' = lru_store (maxBytes rc) (entries rc) k v (now + ttl rc)"
    using Store_refines [OF R, of k v now] by blast
  have "e_cost (k, v, now + ttl rc) \<le> maxBytes rc" using fits by simp
  then obtain es' where e: "entries rc' = (k, v, now + ttl rc) # es'"
    unfolding s(3) lru_store_def lru_put_def using lru_evict_keeps_head by blast
  then obtain a as where xs': "xs' = a # as" and ea: "entry_of rc' a = (k, v, now + ttl rc)"
    using cache_rel_entries [OF s(2)] by (cases xs') auto
  have f: "key (store rc' a) = k" "val (store rc' a) = v" "expiresAt (store rc' a) = now + ttl rc"
    using ea by (simp_all add: entry_of_def)
  have i: "items rc' k = Some a" using s(2) xs' f(1) by (auto simp: cache_rel_def)
  have p: "peek rc' k = Some v" using i f by (simp add: peek_def)
  have h: "hd (recency_keys rc') = k" by (simp add: recency_keys_entries e)
  have g: "fst (Get rc' k t) = Some v" if "\<not> t > now + ttl rc" for t
    using Get_hit [OF i, of t] that f by simp
  show ?thesis using s(1) p h g by blast
qed

lemma Store_oversized:
  assumes R: "cache_rel rc xs" and big: "approximateSize k v > maxBytes rc"
  shows "\<exists>rc'. Store rc k v now = Some rc' \<and> items rc' = Map.empty"
proof -
  obtain rc' xs' where s: "Store rc k v now = Some rc'" "cache_rel rc' xs'"
    "entries rc' = lru_store (maxBytes rc) (entries rc) k v (now + ttl rc)"
    using Store_refines [OF R, of k v now] by blast
  have "e_cost (k, v, now + ttl rc) > maxBytes rc" using big by simp
  then have "entries rc' = []"
    unfolding s(3) lru_store_def lru_put_def by (rule lru_evict_oversized)
  then have "items rc' = Map.empty" using cache_rel_no_entries [OF s(2)] by simp
  then show ?thesis using s(1) by blast
qed

lemmas cache_eval = Store_def Store_put_def Get_def NewResponseCache_def insertAtHead_def
  detachNode_def moveToHead_def evictNode_step_def approximateSize_def nodeOverhead_def Let_def

section \<open>Response cache: the claims\<close>

text \<open>
  C2 as stated fails for a negative budget, which \<open>NewResponseCache\<close> accepts: the loop of
  \<open>evictToCapacity\<close> stops when the list is empty, so after \<open>Store\<close> into a cache with
  budget -1 the cache is empty and the counter is 0, which exceeds the budget.
\<close>

theorem negative_budget_counterexample:
  "map_option usedBytes (run_ops (NewResponseCache 30000000000 (- 1)) [OpStore ''/a'' ''x'' 0]) = Some 0 \<and>
   map_option maxBytes (run_ops (NewResponseCache 30000000000 (- 1)) [OpStore ''/a'' ''x'' 0]) = Some (- 1) \<and>
   map_option (\<lambda>rc. usedBytes rc \<le> maxBytes rc)
     (run_ops (NewResponseCache 30000000000 (- 1)) [OpStore ''/a'' ''x'' 0]) = Some False"
  by (simp add: cache_eval evictToCapacity.simps)

text \<open>
  C2, amended. For every sequence of \<open>Store\<close> and \<open>Get\<close> operations on a new cache
  (whatever its TTL and budget, and also when sweeps of the expired entries run in
  between): every operation returns, and in the state reached the used-byte counter equals
  the sum of \<open>len(key) + len(value) + 64\<close> over the entries of the hash index; and when the
  budget is not negative and the last operation is a \<open>Store\<close>, the counter does not exceed
  the budget. As the sequence is arbitrary, this holds after every prefix, that is after
  every single operation.
\<close>

theorem used_bytes_accounting:
  "\<exists>rc. run_ops (NewResponseCache ttl0 mb) ops = Some rc \<and> maxBytes rc = mb \<and>
     usedBytes rc = live_cost rc \<and>
     (0 \<le> mb \<and> ops \<noteq> [] \<and> is_store (last ops) \<longrightarrow> usedBytes rc \<le> maxBytes rc)"
proof -
  obtain rc xs where r: "run_ops (NewResponseCache ttl0 mb) ops = Some rc" "cache_rel rc xs"
    using run_ops_refines [OF cache_rel_New, of ttl0 mb ops] by blast
  have m: "maxBytes rc = mb" using reachable_rel(2) [OF r(1)] .
  have l: "usedBytes rc = live_cost rc" using live_cost_used [OF r(2)] by simp
  have "usedBytes rc \<le> maxBytes rc" if h: "0 \<le> mb" "ops \<noteq> []" "is_store (last ops)"
  proof -
    obtain k v now where lst: "last ops = OpStore k v now"
      using h(3) by (cases "last ops") auto
    have ops: "ops = butlast ops @ [OpStore k v now]"
      using h(2) lst by (metis append_butlast_last_id)
    obtain rc1 where r1: "run_ops (NewResponseCache ttl0 mb) (butlast ops) = Some rc1"
      using run_ops_refines [OF cache_rel_New, of ttl0 mb "butlast ops"] by blast
    obtain xs1 where R1: "cache_rel rc1 xs1" and m1: "maxBytes rc1 = mb"
      using reachable_rel [OF r1] by blast
    have "run_ops (NewResponseCache ttl0 mb) ops = run_ops rc1 [OpStore k v now]"
      using run_ops_append [of "NewResponseCache ttl0 mb" "butlast ops" "[OpStore k v now]"] ops r1
      by simp
    then have "Store rc1 k v now = Some rc"
      using r(1) by (simp split: option.splits)
    then show ?thesis using Store_within_budget [OF R1] m1 h(1) by simp
  qed
  then show ?thesis using r(1) m l by blast
qed

text \<open>Budget 200: two stores of 67 and 68 bytes with a hit in between leave 135 bytes.\<close>

theorem used_bytes_accounting_witness:
  "(0::int) \<le> 200 \<and>
   is_store (last [OpStore ''/a'' ''x'' 0, OpGet ''/a'' 1, OpStore ''/b'' ''yy'' 2]) \<and>
   map_option usedBytes (run_ops (NewResponseCache 30 200)
      [OpStore ''/a'' ''x'' 0, OpGet ''/a'' 1, OpStore ''/b'' ''yy'' 2]) = Some 135 \<and>
   (\<exists>rc. run_ops (NewResponseCache 30 200)
      [OpStore ''/a'' ''x'' 0, OpGet ''/a'' 1, OpStore ''/b'' ''yy'' 2] = Some rc \<and>
      usedBytes rc = live_cost rc \<and> usedBytes rc \<le> maxBytes rc)"
proof -
  have ev: "map_option usedBytes (run_ops (NewResponseCache 30 200)
      [OpStore ''/a'' ''x'' 0, OpGet ''/a'' 1, OpStore ''/b'' ''yy'' 2]) = Some 135"
    by (simp add: cache_eval evictToCapacity.simps)
  show ?thesis
    using used_bytes_accounting [of 30 200 "[OpStore ''/a'' ''x'' 0, OpGet ''/a'' 1, OpStore ''/b'' ''yy'' 2]"] ev
    by auto
qed

lemma lru_evict_fits: "total_cost es \<le> mb \<Longrightarrow> lru_evict mb es = es"
  by (subst lru_evict.simps) simp

lemma lru_evict_drop: "total_cost es > mb \<Longrightarrow> es \<noteq> [] \<Longrightarrow> lru_evict mb es = lru_evict mb (butlast es)"
  by (subst lru_evict.simps) simp

text \<open>
  C3. Three entries A, B, C with distinct keys and the same cost \<open>c\<close> (for instance
  100-byte values under keys of one length), in a new cache whose budget holds exactly
  two of them (\<open>2c \<le> budget < 3c\<close>), with \<open>Get(A)\<close> made before A's deadline. After
  \<open>Store(A)\<close>, \<open>Store(B)\<close> the recency order is B, A, so A is at the tail; \<open>Get(A)\<close> is a
  hit and makes the order A, B; after \<open>Store(C)\<close> the order is C, A: the tail B was
  evicted, A is still in the hash index and B is not.
\<close>

theorem lru_eviction_order:
  assumes keys: "kA \<noteq> kB" "kA \<noteq> kC" "kB \<noteq> kC"
    and cost: "approximateSize kA vA = c" "approximateSize kB vB = c" "approximateSize kC vC = c"
    and budget: "2 * c \<le> mb" "mb < 3 * c"
    and live: "\<not> t3 > t1 + ttl0"
  shows "\<exists>rc2 rc.
    run_ops (NewResponseCache ttl0 mb) [OpStore kA vA t1, OpStore kB vB t2] = Some rc2 \<and>
    recency_keys rc2 = [kB, kA] \<and>
    fst (Get rc2 kA t3) = Some vA \<and>
    recency_keys (snd (Get rc2 kA t3)) = [kA, kB] \<and>
    run_ops (NewResponseCache ttl0 mb)
      [OpStore kA vA t1, OpStore kB vB t2, OpGet kA t3, OpStore kC vC t4] = Some rc \<and>
    recency_keys rc = [kC, kA] \<and>
    items rc kB = None \<and> items rc kA \<noteq> None \<and> items rc kC \<noteq> None \<and>
    usedBytes rc = 2 * c"
proof -
  let ?rc0 = "NewResponseCache ttl0 mb"
  let ?eA = "(kA, vA, t1 + ttl0)" and ?eB = "(kB, vB, t2 + ttl0)" and ?eC = "(kC, vC, t4 + ttl0)"
  have cpos: "c > 0" using cost(1) by (simp add: approximateSize_def nodeOverhead_def)
  have R0: "cache_rel ?rc0 []" by (rule cache_rel_New)
  have e0: "entries ?rc0 = []" using cache_rel_entries [OF R0] by simp
  have f0: "maxBytes ?rc0 = mb" "ttl ?rc0 = ttl0" by (simp_all add: NewResponseCache_def)
  obtain rc1 xs1 where s1: "Store ?rc0 kA vA t1 = Some rc1" and R1: "cache_rel rc1 xs1"
    and e1: "entries rc1 = lru_store mb [] kA vA (t1 + ttl0)"
    and f1: "maxBytes rc1 = mb" "ttl rc1 = ttl0"
    using Store_refines [OF R0, of kA vA t1] e0 f0 by auto
  have e1': "entries rc1 = [?eA]"
    unfolding e1 lru_store_def lru_put_def
    using cost budget cpos by (simp add: lru_evict_fits total_cost_def)
  obtain rc2 xs2 where s2: "Store rc1 kB vB t2 = Some rc2" and R2: "cache_rel rc2 xs2"
    and e2: "entries rc2 = lru_store mb (entries rc1) kB vB (t2 + ttl0)"
    and f2: "maxBytes rc2 = mb" "ttl rc2 = ttl0"
    using Store_refines [OF R1, of kB vB t2] f1 by auto
  have e2': "entries rc2 = [?eB, ?eA]"
    unfolding e2 e1' lru_store_def lru_put_def
    using cost budget keys by (simp add: lru_evict_fits total_cost_def)
  let ?rc3 = "snd (Get rc2 kA t3)"
  obtain xs3 where R3: "cache_rel ?rc3 xs3"
    and e3: "entries ?rc3 = snd (lru_get (entries rc2) kA t3)"
    and g3: "fst (Get rc2 kA t3) = fst (lru_get (entries rc2) kA t3)"
    and f3: "maxBytes ?rc3 = mb" "ttl ?rc3 = ttl0"
    using Get_refines [OF R2, of kA t3] f2 by auto
  have lg: "lru_get [?eB, ?eA] kA t3 = (Some vA, [?eA, ?eB])"
    using keys live by (simp add: lru_get_def)
  have e3': "entries ?rc3 = [?eA, ?eB]" and g3': "fst (Get rc2 kA t3) = Some vA"
    using e3 g3 lg by (simp_all add: e2')
  obtain rc4 xs4 where s4: "Store ?rc3 kC vC t4 = Some rc4" and R4: "cache_rel rc4 xs4"
    and e4: "entries rc4 = lru_store mb (entries ?rc3) kC vC (t4 + ttl0)"
    using Store_refines [OF R3, of kC vC t4] f3 by auto
  have "lru_evict mb [?eC, ?eA, ?eB] = lru_evict mb (butlast [?eC, ?eA, ?eB])"
    by (rule lru_evict_drop) (use cost budget in \<open>simp_all add: total_cost_def\<close>)
  also have "\<dots> = [?eC, ?eA]"
    using cost budget by (simp add: lru_evict_fits total_cost_def)
  finally have e4': "entries rc4 = [?eC, ?eA]"
    unfolding e4 e3' lru_store_def lru_put_def using keys by simp
  have run2: "run_ops ?rc0 [OpStore kA vA t1, OpStore kB vB t2] = Some rc2"
    using s1 s2 by simp
  have run4: "run_ops ?rc0 [OpStore kA vA t1, OpStore kB vB t2, OpGet kA t3, OpStore kC vC t4] = Some rc4"
    using s1 s2 s4 by simp
  have k2: "recency_keys rc2 = [kB, kA]" by (simp add: recency_keys_entries e2')
  have k3: "recency_keys ?rc3 = [kA, kB]" by (simp add: recency_keys_entries e3')
  have k4: "recency_keys rc4 = [kC, kA]" by (simp add: recency_keys_entries e4')
  have iB: "items rc4 kB = None"
    using items_dom_entries [OF R4, of kB] keys by (simp add: e4')
  have iA: "items rc4 kA \<noteq> None"
    using items_dom_entries [OF R4, of kA] by (simp add: e4')
  have iC: "items rc4 kC \<noteq> None"
    using items_dom_entries [OF R4, of kC] by (simp add: e4')
  have u: "usedBytes rc4 = 2 * c"
    using total_cost_entries [OF R4] cost by (simp add: e4' total_cost_def)
  show ?thesis using run2 k2 g3' k3 run4 k4 iB iA iC u by blast
qed

text \<open>Values of 100 bytes under two-byte keys cost 166 each; a budget of 400 holds two.\<close>

theorem lru_eviction_order_witness:
  "approximateSize ''/a'' (replicate 100 CHR ''a'') = 166 \<and>
   approximateSize ''/b'' (replicate 100 CHR ''b'') = 166 \<and>
   approximateSize ''/c'' (replicate 100 CHR ''c'') = 166 \<and>
   (\<exists>rc. run_ops (NewResponseCache 30000000000 400)
      [OpStore ''/a'' (replicate 100 CHR ''a'') 0, OpStore ''/b'' (replicate 100 CHR ''b'') 1,
       OpGet ''/a'' 2, OpStore ''/c'' (replicate 100 CHR ''c'') 3] = Some rc \<and>
      recency_keys rc = [''/c'', ''/a''] \<and> items rc ''/b'' = None \<and> items rc ''/a'' \<noteq> None)"
proof -
  have k: "''/a'' \<noteq> ''/b''" "''/a'' \<noteq> ''/c''" "''/b'' \<noteq> ''/c''" by simp_all
  have c: "approximateSize ''/a'' (replicate 100 CHR ''a'') = 166"
    "approximateSize ''/b'' (replicate 100 CHR ''b'') = 166"
    "approximateSize ''/c'' (replicate 100 CHR ''c'') = 166"
    by (simp_all add: approximateSize_def nodeOverhead_def)
  have b: "2 * (166::int) \<le> 400" "(400::int) < 3 * 166" by simp_all
  have l: "\<not> (2::int) > 0 + 30000000000" by simp
  show ?thesis
    using lru_eviction_order [OF k c b l, of 1 3] c by blast
qed

text \<open>
  C5. In every state reached from a new cache by \<open>Store\<close> and \<open>Get\<close> operations and
  sweeps, for every key in the hash index whose node's deadline has passed (\<open>now\<close> is after
  \<open>expiresAt\<close>), whatever the used bytes and the budget are: \<open>Get\<close> reports a miss; the
  key is deleted from the hash index and nothing else is; the node is taken out of the
  recency list, which is otherwise unchanged; the node's size is subtracted from the
  used-byte counter, which still equals the cost of the live entries.
\<close>

theorem expired_get_removes:
  assumes "run_ops (NewResponseCache ttl0 mb) ops = Some rc"
    and "items rc k = Some a" and "now > expiresAt (store rc a)"
  shows "fst (Get rc k now) = None \<and>
    items (snd (Get rc k now)) = (items rc)(k := None) \<and>
    a \<in> set (recency_list rc) \<and>
    recency_list (snd (Get rc k now)) = remove1 a (recency_list rc) \<and>
    usedBytes (snd (Get rc k now)) = usedBytes rc - sizeBytes (store rc a) \<and>
    usedBytes (snd (Get rc k now)) = live_cost (snd (Get rc k now))"
proof -
  obtain xs where R: "cache_rel rc xs" using reachable_rel(1) [OF assms(1)] by blast
  have xs: "recency_list rc = xs" using cache_rel_recency [OF R] .
  have ka: "a \<in> set xs" "key (store rc a) = k"
    using R assms(2) by (auto simp: cache_rel_def)
  have g: "Get rc k now = (None, evictNode_step rc a)"
    using Get_expired [OF R assms(2,3)] .
  have R': "cache_rel (evictNode_step rc a) (remove1 a xs)"
    using cache_rel_remove [OF R ka(1)] .
  show ?thesis
    using cache_rel_recency [OF R'] live_cost_used [OF R'] ka xs
    by (simp add: g evictNode_step_fields)
qed

text \<open>One 67-byte entry with deadline 30 in a cache of budget 1000, read at time 31: far
  from capacity, and removed all the same.\<close>

theorem expired_get_removes_witness:
  "run_ops (NewResponseCache 30 1000) [OpStore ''/a'' ''x'' 0] =
     Some \<lparr>store = (\<lambda>a. zeroNode)(0 := \<lparr>key = ''/a'', val = ''x'', sizeBytes = 67, expiresAt = 30,
                prev = None, nxt = None\<rparr>),
           fresh = 1, items = [''/a'' \<mapsto> 0], head = Some 0, tail = Some 0,
           maxBytes = 1000, usedBytes = 67, ttl = 30\<rparr> \<and>
   fst (Get \<lparr>store = (\<lambda>a. zeroNode)(0 := \<lparr>key = ''/a'', val = ''x'', sizeBytes = 67, expiresAt = 30,
                prev = None, nxt = None\<rparr>),
           fresh = 1, items = [''/a'' \<mapsto> 0], head = Some 0, tail = Some 0,
           maxBytes = 1000, usedBytes = 67, ttl = 30\<rparr> ''/a'' 31) = None \<and>
   items (snd (Get \<lparr>store = (\<lambda>a. zeroNode)(0 := \<lparr>key = ''/a'', val = ''x'', sizeBytes = 67, expiresAt = 30,
                prev = None, nxt = None\<rparr>),
           fresh = 1, items = [''/a'' \<mapsto> 0], head = Some 0, tail = Some 0,
           maxBytes = 1000, usedBytes = 67, ttl = 30\<rparr> ''/a'' 31)) = Map.empty \<and>
   recency_list (snd (Get \<lparr>store = (\<lambda>a. zeroNode)(0 := \<lparr>key = ''/a'', val = ''x'', sizeBytes = 67, expiresAt = 30,
                prev = None, nxt = None\<rparr>),
           fresh = 1, items = [''/a'' \<mapsto> 0], head = Some 0, tail = Some 0,
           maxBytes = 1000, usedBytes = 67, ttl = 30\<rparr> ''/a'' 31)) = [] \<and>
   usedBytes (snd (Get \<lparr>store = (\<lambda>a. zeroNode)(0 := \<lparr>key = ''/a'', val = ''x'', sizeBytes = 67, expiresAt = 30,
                prev = None, nxt = None\<rparr>),
           fresh = 1, items = [''/a'' \<mapsto> 0], head = Some 0, tail = Some 0,
           maxBytes = 1000, usedBytes = 67, ttl = 30\<rparr> ''/a'' 31)) = 0"
proof -
  let ?rc = "\<lparr>store = (\<lambda>a. zeroNode)(0 := \<lparr>key = ''/a'', val = ''x'', sizeBytes = 67, expiresAt = 30,
                prev = None, nxt = None\<rparr>),
           fresh = 1, items = [''/a'' \<mapsto> 0], head = Some 0, tail = Some 0,
           maxBytes = 1000, usedBytes = 67, ttl = 30\<rparr>"
  have h1: "run_ops (NewResponseCache 30 1000) [OpStore ''/a'' ''x'' 0] = Some ?rc"
    by (simp add: cache_eval evictToCapacity.simps)
  have h2: "items ?rc ''/a'' = Some 0" by simp
  have h3: "(31::int) > expiresAt (store ?rc 0)" by simp
  have l: "recency_list ?rc = [0]"
    by (simp add: recency_list_def)
  show ?thesis
    using expired_get_removes [OF h1 h2 h3] h1 l by simp
qed

text \<open>
  C10. In every state reached from a new cache by \<open>Store\<close> and \<open>Get\<close> operations and
  sweeps, a \<open>Store\<close> of a key and value whose cost \<open>len(key) + len(value) + 64\<close> exceeds the budget
  returns with the cache empty: no key in the hash index, \<open>head\<close> and \<open>tail\<close> nil, the
  recency list empty, the used-byte counter 0. A \<open>Get\<close> of the same key right after
  reports a miss and changes nothing.
\<close>

theorem oversized_store_empties_cache:
  assumes "run_ops (NewResponseCache ttl0 mb) ops = Some rc" and "approximateSize k v > mb"
  shows "\<exists>rc'. Store rc k v now = Some rc' \<and> items rc' = Map.empty \<and> head rc' = None \<and>
    tail rc' = None \<and> usedBytes rc' = 0 \<and> recency_list rc' = [] \<and> Get rc' k now' = (None, rc')"
proof -
  obtain xs where R: "cache_rel rc xs" and m: "maxBytes rc = mb"
    using reachable_rel [OF assms(1)] by blast
  obtain rc' xs' where s: "Store rc k v now = Some rc'" "cache_rel rc' xs'"
    "entries rc' = lru_store (maxBytes rc) (entries rc) k v (now + ttl rc)"
    using Store_refines [OF R, of k v now] by blast
  have "e_cost (k, v, now + ttl rc) > mb" using assms(2) by simp
  then have "entries rc' = []"
    unfolding s(3) lru_store_def lru_put_def m by (rule lru_evict_oversized)
  then have e: "items rc' = Map.empty \<and> head rc' = None \<and> tail rc' = None \<and> usedBytes rc' = 0
     \<and> recency_list rc' = []"
    using cache_rel_no_entries [OF s(2)] by simp
  then have "Get rc' k now' = (None, rc')" by (simp add: Get_miss)
  then show ?thesis using s(1) e by blast
qed

text \<open>Budget 70 holding one 67-byte entry; storing a 71-byte entry empties the cache.\<close>

theorem oversized_store_empties_cache_witness:
  "run_ops (NewResponseCache 30 70) [OpStore ''/a'' ''x'' 0] =
     Some \<lparr>store = (\<lambda>a. zeroNode)(0 := \<lparr>key = ''/a'', val = ''x'', sizeBytes = 67, expiresAt = 30,
                prev = None, nxt = None\<rparr>),
           fresh = 1, items = [''/a'' \<mapsto> 0], head = Some 0, tail = Some 0,
           maxBytes = 70, usedBytes = 67, ttl = 30\<rparr> \<and>
   approximateSize ''/bb'' ''yyyy'' > 70 \<and>
   (\<exists>rc'. Store \<lparr>store = (\<lambda>a. zeroNode)(0 := \<lparr>key = ''/a'', val = ''x'', sizeBytes = 67, expiresAt = 30,
                prev = None, nxt = None\<rparr>),
           fresh = 1, items = [''/a'' \<mapsto> 0], head = Some 0, tail = Some 0,
           maxBytes = 70, usedBytes = 67, ttl = 30\<rparr> ''/bb'' ''yyyy'' 5 = Some rc' \<and>
      items rc' = Map.empty \<and> head rc' = None \<and> tail rc' = None \<and> usedBytes rc' = 0 \<and>
      recency_list rc' = [] \<and> fst (Get rc' ''/bb'' 6) = None)"
proof -
  let ?rc = "\<lparr>store = (\<lambda>a. zeroNode)(0 := \<lparr>key = ''/a'', val = ''x'', sizeBytes = 67, expiresAt = 30,
                prev = None, nxt = None\<rparr>),
           fresh = 1, items = [''/a'' \<mapsto> 0], head = Some 0, tail = Some 0,
           maxBytes = 70, usedBytes = 67, ttl = 30\<rparr>"
  have h1: "run_ops (NewResponseCache 30 70) [OpStore ''/a'' ''x'' 0] = Some ?rc"
    by (simp add: cache_eval evictToCapacity.simps)
  have h2: "approximateSize ''/bb'' ''yyyy'' > 70"
    by (simp add: approximateSize_def nodeOverhead_def)
  obtain rc' where "Store ?rc ''/bb'' ''yyyy'' 5 = Some rc'" "items rc' = Map.empty"
    "head rc' = None" "tail rc' = None" "usedBytes rc' = 0" "recency_list rc' = []"
    "Get rc' ''/bb'' 6 = (None, rc')"
    using oversized_store_empties_cache [OF h1 h2, of 5 6] by blast
  then have "\<exists>rc'. Store ?rc ''/bb'' ''yyyy'' 5 = Some rc' \<and>
      items rc' = Map.empty \<and> head rc' = None \<and> tail rc' = None \<and> usedBytes rc' = 0 \<and>
      recency_list rc' = [] \<and> fst (Get rc' ''/bb'' 6) = None"
    by simp
  then show ?thesis using h1 h2 by blast
qed

section \<open>Router: round robin over the eligible candidates\<close>

lemma AllowRequest_closed_state:
  assumes "GetBreakerState cbm n = Closed"
  shows "fst (AllowRequest cbm n t)"
    and "GetBreakerState (snd (AllowRequest cbm n t)) m = GetBreakerState cbm m"
  using assms
  by (auto simp: AllowRequest_def GetBreakerState_def newBreaker_def Let_def split: option.splits)

lemma AllowRequest_state_other:
  "m \<noteq> n \<Longrightarrow> GetBreakerState (snd (AllowRequest cbm n t)) m = GetBreakerState cbm m"
  using AllowRequest_other [of n m cbm t] by (simp add: GetBreakerState_def)

lemma filter_eligible_healthy:
  assumes "\<forall>s \<in> set ss. IsHealthy hm (Name s) \<longrightarrow> GetBreakerState cbm (Name s) = Closed"
  shows "fst (filter_eligible hm cbm clock i ss) = filter (\<lambda>s. IsHealthy hm (Name s)) ss \<and>
         (\<forall>n. IsHealthy hm n \<longrightarrow>
            GetBreakerState (snd (filter_eligible hm cbm clock i ss)) n = GetBreakerState cbm n)"
  using assms
proof (induction ss arbitrary: cbm i)
  case Nil
  then show ?case by simp
next
  case (Cons s ss)
  let ?cbm1 = "snd (AllowRequest cbm (Name s) (clock i))"
  have keep: "GetBreakerState ?cbm1 n = GetBreakerState cbm n" if "IsHealthy hm n" for n
  proof (cases "n = Name s")
    case True
    then have "GetBreakerState cbm (Name s) = Closed" using Cons.prems that by simp
    then show ?thesis using AllowRequest_closed_state(2) by simp
  next
    case False
    then show ?thesis by (simp add: AllowRequest_state_other)
  qed
  have pre: "\<forall>s' \<in> set ss. IsHealthy hm (Name s') \<longrightarrow> GetBreakerState ?cbm1 (Name s') = Closed"
    using Cons.prems keep by simp
  note IH = Cons.IH [of ?cbm1 "Suc i", OF pre]
  have allowed: "IsHealthy hm (Name s) \<Longrightarrow> fst (AllowRequest cbm (Name s) (clock i))"
    using Cons.prems AllowRequest_closed_state(1) by simp
  have unf: "filter_eligible hm cbm clock i (s # ss) =
      (if IsHealthy hm (Name s) \<and> fst (AllowRequest cbm (Name s) (clock i))
       then s # fst (filter_eligible hm ?cbm1 clock (Suc i) ss)
       else fst (filter_eligible hm ?cbm1 clock (Suc i) ss),
       snd (filter_eligible hm ?cbm1 clock (Suc i) ss))"
    by (simp add: split_beta Let_def)
  show ?case
    unfolding unf using IH allowed keep by auto
qed

lemma go_rem_nonneg:
  "0 \<le> c \<Longrightarrow> 0 < n \<Longrightarrow> go_rem c (int n) = int (nat c mod n)"
  by (simp add: go_rem_def zmod_int)

lemma go_rem_one: "go_rem c 1 = 0"
  by (simp add: go_rem_def)

lemma ResolveBackend_fields:
  "Cache (snd (ResolveBackend app ks1 ks2 clock path)) = Cache app"
  "Registry (snd (ResolveBackend app ks1 ks2 clock path)) = Registry app"
  "HealthMonitor (snd (ResolveBackend app ks1 ks2 clock path)) = HealthMonitor app"
  by (simp_all add: ResolveBackend_def Let_def split_beta)

lemma ResolveBackend_round_robin:
  assumes sfp: "ServersForPath (Registry app) ks1 ks2 path = (p, cands, True)" and p: "p \<noteq> []"
    and closed: "\<forall>s \<in> set cands. IsHealthy (HealthMonitor app) (Name s)
                    \<longrightarrow> GetBreakerState (CircuitBreaker app) (Name s) = Closed"
    and es: "filter (\<lambda>s. IsHealthy (HealthMonitor app) (Name s)) cands = es" "es \<noteq> []"
    and ctr: "0 \<le> counter_of app p \<or> length es = 1"
  shows "chosen_name (ResolveBackend app ks1 ks2 clock path)
           = Some (Name (es ! (nat (counter_of app p) mod length es)))"
    and "counter_of (snd (ResolveBackend app ks1 ks2 clock path)) p = counter_of app p + 1"
    and "\<forall>n. IsHealthy (HealthMonitor app) n \<longrightarrow>
           GetBreakerState (CircuitBreaker (snd (ResolveBackend app ks1 ks2 clock path))) n
             = GetBreakerState (CircuitBreaker app) n"
proof -
  let ?fe = "filter_eligible (HealthMonitor app) (CircuitBreaker app) clock 0 cands"
  have fe: "fst ?fe = es"
    and st: "\<forall>n. IsHealthy (HealthMonitor app) n \<longrightarrow>
           GetBreakerState (snd ?fe) n = GetBreakerState (CircuitBreaker app) n"
    using filter_eligible_healthy [OF closed, of clock 0] es(1) by auto
  have cne: "cands \<noteq> []" using es by auto
  have len: "0 < length es" using es(2) by simp
  have idx: "go_rem (counter_of app p) (int (length es)) = int (nat (counter_of app p) mod length es)"
  proof (cases "0 \<le> counter_of app p")
    case True
    then show ?thesis using go_rem_nonneg len by simp
  next
    case False
    then have "length es = 1" using ctr by simp
    then show ?thesis by (simp add: go_rem_one)
  qed
  have lt: "\<not> length es \<le> nat (counter_of app p) mod length es"
    using len by (simp add: not_le)
  have cnt: "counter_of (app\<lparr>CircuitBreaker := c\<rparr>) p = counter_of app p" for c
    by (simp add: counter_of_def)
  have res: "ResolveBackend app ks1 ks2 clock path =
      (Inr \<lparr>Server = es ! (nat (counter_of app p) mod length es),
            TargetURL = BaseURL (es ! (nat (counter_of app p) mod length es)) @ TrimPrefix path p,
            Prefix = p\<rparr>,
       app\<lparr>CircuitBreaker := snd ?fe,
           roundRobinIndex := (roundRobinIndex app)(p \<mapsto> counter_of app p + 1)\<rparr>)"
    using sfp p cne fe es(2) idx lt
    by (simp add: ResolveBackend_def Let_def split_beta cnt)
  show "chosen_name (ResolveBackend app ks1 ks2 clock path)
           = Some (Name (es ! (nat (counter_of app p) mod length es)))"
    by (simp add: res chosen_name_def)
  show "counter_of (snd (ResolveBackend app ks1 ks2 clock path)) p = counter_of app p + 1"
    by (simp add: res counter_of_def)
  show "\<forall>n. IsHealthy (HealthMonitor app) n \<longrightarrow>
           GetBreakerState (CircuitBreaker (snd (ResolveBackend app ks1 ks2 clock path))) n
             = GetBreakerState (CircuitBreaker app) n"
    using st by (simp add: res)
qed

lemma upt_0_Suc_map: "map f [0..<Suc n] = f 0 # map (\<lambda>k. f (Suc k)) [0..<n]"
proof -
  have "[0..<Suc n] = 0 # map Suc [0..<n]"
    by (simp add: upt_conv_Cons map_Suc_upt del: upt_Suc)
  then show ?thesis by (simp add: comp_def del: upt_Suc)
qed

lemma resolve_seq_alternates:
  assumes "\<forall>(ks1, ks2, clock) \<in> set calls.
             ServersForPath (Registry app) ks1 ks2 path = (p, [sa, sb], True)"
    and "p \<noteq> []"
    and "IsHealthy (HealthMonitor app) (Name sa)" "IsHealthy (HealthMonitor app) (Name sb)"
    and "GetBreakerState (CircuitBreaker app) (Name sa) = Closed"
    and "GetBreakerState (CircuitBreaker app) (Name sb) = Closed"
    and "0 \<le> counter_of app p"
  shows "resolve_seq app calls path =
           map (\<lambda>k. Some (Name ([sa, sb] ! ((nat (counter_of app p) + k) mod 2)))) [0..<length calls]"
  using assms
proof (induction calls arbitrary: app)
  case Nil
  then show ?case by simp
next
  case (Cons call calls)
  obtain ks1 ks2 clock where call: "call = (ks1, ks2, clock)" by (cases call)
  let ?r = "ResolveBackend app ks1 ks2 clock path"
  let ?app' = "snd ?r"
  let ?c = "counter_of app p"
  have sfp: "ServersForPath (Registry app) ks1 ks2 path = (p, [sa, sb], True)"
    using Cons.prems(1) call by simp
  have closed: "\<forall>s \<in> set [sa, sb]. IsHealthy (HealthMonitor app) (Name s)
      \<longrightarrow> GetBreakerState (CircuitBreaker app) (Name s) = Closed"
    using Cons.prems by simp
  have es: "filter (\<lambda>s. IsHealthy (HealthMonitor app) (Name s)) [sa, sb] = [sa, sb]" "[sa, sb] \<noteq> []"
    using Cons.prems by simp_all
  have ctr: "0 \<le> ?c \<or> length [sa, sb] = 1" using Cons.prems by simp
  note rb = ResolveBackend_round_robin [OF sfp Cons.prems(2) closed es ctr, of clock]
  have first: "chosen_name ?r = Some (Name ([sa, sb] ! (nat ?c mod 2)))"
    using rb(1) by (simp add: numeral_2_eq_2)
  have c': "counter_of ?app' p = ?c + 1" using rb(2) .
  have pre: "\<forall>(ks1, ks2, clock) \<in> set calls.
             ServersForPath (Registry ?app') ks1 ks2 path = (p, [sa, sb], True)"
    using Cons.prems(1) by (simp add: ResolveBackend_fields)
  have h': "IsHealthy (HealthMonitor ?app') (Name sa)" "IsHealthy (HealthMonitor ?app') (Name sb)"
    using Cons.prems by (simp_all add: ResolveBackend_fields)
  have cl': "GetBreakerState (CircuitBreaker ?app') (Name sa) = Closed"
    "GetBreakerState (CircuitBreaker ?app') (Name sb) = Closed"
    using rb(3) Cons.prems by simp_all
  have nn: "0 \<le> counter_of ?app' p" using c' Cons.prems by simp
  have rest: "resolve_seq ?app' calls path =
      map (\<lambda>k. Some (Name ([sa, sb] ! ((nat (counter_of ?app' p) + k) mod 2)))) [0..<length calls]"
    by (rule Cons.IH [OF pre Cons.prems(2) h' cl' nn])
  have shift: "nat (counter_of ?app' p) + k = nat ?c + Suc k" for k
    using c' Cons.prems(7) by simp
  have "resolve_seq app (call # calls) path = chosen_name ?r # resolve_seq ?app' calls path"
    by (simp add: call)
  also have "\<dots> = Some (Name ([sa, sb] ! ((nat ?c + 0) mod 2)))
      # map (\<lambda>k. Some (Name ([sa, sb] ! ((nat ?c + Suc k) mod 2)))) [0..<length calls]"
    unfolding rest first shift by simp
  also have "\<dots> = map (\<lambda>k. Some (Name ([sa, sb] ! ((nat ?c + k) mod 2)))) [0..<Suc (length calls)]"
    by (rule upt_0_Suc_map [symmetric])
  finally show ?case by simp
qed

lemma resolve_seq_unhealthy:
  assumes "\<forall>(ks1, ks2, clock) \<in> set calls.
             ServersForPath (Registry app) ks1 ks2 path = (p, [sa, sb], True) \<or>
             ServersForPath (Registry app) ks1 ks2 path = (p, [sb, sa], True)"
    and "p \<noteq> []"
    and "\<not> IsHealthy (HealthMonitor app) (Name sa)" "IsHealthy (HealthMonitor app) (Name sb)"
    and "GetBreakerState (CircuitBreaker app) (Name sb) = Closed"
  shows "resolve_seq app calls path = replicate (length calls) (Some (Name sb))"
  using assms
proof (induction calls arbitrary: app)
  case Nil
  then show ?case by simp
next
  case (Cons call calls)
  obtain ks1 ks2 clock where call: "call = (ks1, ks2, clock)" by (cases call)
  let ?r = "ResolveBackend app ks1 ks2 clock path"
  let ?app' = "snd ?r"
  obtain cands where sfp: "ServersForPath (Registry app) ks1 ks2 path = (p, cands, True)"
    and cands: "cands = [sa, sb] \<or> cands = [sb, sa]"
    using Cons.prems(1) call by auto
  have closed: "\<forall>s \<in> set cands. IsHealthy (HealthMonitor app) (Name s)
      \<longrightarrow> GetBreakerState (CircuitBreaker app) (Name s) = Closed"
    using Cons.prems cands by auto
  have es: "filter (\<lambda>s. IsHealthy (HealthMonitor app) (Name s)) cands = [sb]" "[sb] \<noteq> []"
    using Cons.prems cands by auto
  have ctr: "0 \<le> counter_of app p \<or> length [sb] = 1" by simp
  note rb = ResolveBackend_round_robin [OF sfp Cons.prems(2) closed es ctr, of clock]
  have first: "chosen_name ?r = Some (Name sb)" using rb(1) by simp
  have pre: "\<forall>(ks1, ks2, clock) \<in> set calls.
             ServersForPath (Registry ?app') ks1 ks2 path = (p, [sa, sb], True) \<or>
             ServersForPath (Registry ?app') ks1 ks2 path = (p, [sb, sa], True)"
    using Cons.prems(1) by (simp add: ResolveBackend_fields)
  have h': "\<not> IsHealthy (HealthMonitor ?app') (Name sa)" "IsHealthy (HealthMonitor ?app') (Name sb)"
    using Cons.prems by (simp_all add: ResolveBackend_fields)
  have cl': "GetBreakerState (CircuitBreaker ?app') (Name sb) = Closed"
    using rb(3) Cons.prems by simp
  have rest: "resolve_seq ?app' calls path = replicate (length calls) (Some (Name sb))"
    by (rule Cons.IH [OF pre Cons.prems(2) h' cl'])
  show ?case by (simp add: call first rest)
qed

lemma resolve_seq_swapped:
  assumes "ServersForPath (Registry app) ks1 ks2 path = (p, [sa, sb], True)"
    and "ServersForPath (Registry app) ks1' ks2' path = (p, [sb, sa], True)"
    and "p \<noteq> []"
    and "IsHealthy (HealthMonitor app) (Name sa)" "IsHealthy (HealthMonitor app) (Name sb)"
    and "GetBreakerState (CircuitBreaker app) (Name sa) = Closed"
    and "GetBreakerState (CircuitBreaker app) (Name sb) = Closed"
    and "0 \<le> counter_of app p"
  shows "resolve_seq app [(ks1, ks2, clock), (ks1', ks2', clock')] path =
           [Some (Name ([sa, sb] ! (nat (counter_of app p) mod 2))),
            Some (Name ([sa, sb] ! (nat (counter_of app p) mod 2)))]"
proof -
  let ?r = "ResolveBackend app ks1 ks2 clock path"
  let ?app' = "snd ?r"
  let ?c = "counter_of app p"
  have closed: "\<forall>s \<in> set [sa, sb]. IsHealthy (HealthMonitor app) (Name s)
      \<longrightarrow> GetBreakerState (CircuitBreaker app) (Name s) = Closed"
    using assms by simp
  have es: "filter (\<lambda>s. IsHealthy (HealthMonitor app) (Name s)) [sa, sb] = [sa, sb]" "[sa, sb] \<noteq> []"
    using assms by simp_all
  have ctr: "0 \<le> ?c \<or> length [sa, sb] = 1" using assms by simp
  note rb = ResolveBackend_round_robin [OF assms(1,3) closed es ctr, of clock]
  have first: "chosen_name ?r = Some (Name ([sa, sb] ! (nat ?c mod 2)))"
    using rb(1) by (simp add: numeral_2_eq_2)
  have c': "counter_of ?app' p = ?c + 1" using rb(2) .
  have sfp2: "ServersForPath (Registry ?app') ks1' ks2' path = (p, [sb, sa], True)"
    using assms(2) by (simp add: ResolveBackend_fields)
  have closed2: "\<forall>s \<in> set [sb, sa]. IsHealthy (HealthMonitor ?app') (Name s)
      \<longrightarrow> GetBreakerState (CircuitBreaker ?app') (Name s) = Closed"
    using rb(3) assms by simp
  have es2: "filter (\<lambda>s. IsHealthy (HealthMonitor ?app') (Name s)) [sb, sa] = [sb, sa]" "[sb, sa] \<noteq> []"
    using assms by (simp_all add: ResolveBackend_fields)
  have ctr2: "0 \<le> counter_of ?app' p \<or> length [sb, sa] = 1" using c' assms by simp
  note rb2 = ResolveBackend_round_robin [OF sfp2 assms(3) closed2 es2 ctr2, of clock']
  have n2: "nat (counter_of ?app' p) = Suc (nat ?c)" using c' assms(8) by simp
  have flip: "[sb, sa] ! (Suc n mod 2) = [sa, sb] ! (n mod 2)" for n
  proof (cases "n mod 2 = 0")
    case True
    then have "Suc n mod 2 = 1" by (simp add: mod_Suc)
    then show ?thesis using True by simp
  next
    case False
    then have "n mod 2 = 1" by simp
    moreover from this have "Suc n mod 2 = 0" by (simp add: mod_Suc)
    ultimately show ?thesis by simp
  qed
  have second: "chosen_name (ResolveBackend ?app' ks1' ks2' clock' path)
      = Some (Name ([sa, sb] ! (nat ?c mod 2)))"
    using rb2(1) flip [of "nat ?c"] by (simp add: n2 numeral_2_eq_2)
  show ?thesis by (simp add: first second)
qed

lemma example_sfp:
  "ServersForPath (Registry example_app) ks1 [''a'', ''b''] ''/s1/x'' = (''/s1'', [server_a, server_b], True)"
  "ServersForPath (Registry example_app) ks1 [''b'', ''a''] ''/s1/x'' = (''/s1'', [server_b, server_a], True)"
  if "ks1 = [''a'', ''b''] \<or> ks1 = [''b'', ''a'']"
  using that
  by (auto simp: ServersForPath_def range_servers_def example_app_def server_a_def server_b_def Let_def)

lemma example_state:
  "IsHealthy (HealthMonitor example_app) (Name server_a)"
  "IsHealthy (HealthMonitor example_app) (Name server_b)"
  "GetBreakerState (CircuitBreaker example_app) (Name server_a) = Closed"
  "GetBreakerState (CircuitBreaker example_app) (Name server_b) = Closed"
  "counter_of example_app ''/s1'' = 0"
  by (simp_all add: example_app_def IsHealthy_def GetBreakerState_def counter_of_def
      NewCircuitBreakerManager_def server_a_def server_b_def probed_healthy_def)

text \<open>
  C7 (what the code does). Two backends \<open>sa\<close> and \<open>sb\<close> are the candidates of the longest
  matched prefix, \<open>sb\<close> is healthy with a Closed breaker, \<open>sa\<close>'s breaker is Closed if \<open>sa\<close>
  is healthy, and the prefix's counter is not negative. Each call takes the eligible
  candidates in the order in which this call's loop over the registry's map met them,
  and picks the one at index counter modulo their number.
  \<^item> Both healthy, and every call meets the candidates in the order \<open>sa\<close>, \<open>sb\<close>: the
    calls alternate between the two.
  \<^item> Both healthy, and the second call meets them in the order \<open>sb\<close>, \<open>sa\<close>, as Go's
    unspecified map iteration order allows: both calls pick the same backend, so the
    alternation the claim states does not hold.
  \<^item> \<open>sa\<close> unhealthy: every call picks \<open>sb\<close>, whatever the order and the counter.

  The first case is what happens with the PostgreSQL registry, whose rows come ordered by
  name, as long as the table does not change; the second needs the in-memory registry.
\<close>

theorem round_robin_over_two_backends:
  assumes "p \<noteq> []"
    and "IsHealthy (HealthMonitor app) (Name sb)"
    and "GetBreakerState (CircuitBreaker app) (Name sb) = Closed"
    and "IsHealthy (HealthMonitor app) (Name sa) \<longrightarrow> GetBreakerState (CircuitBreaker app) (Name sa) = Closed"
    and "0 \<le> counter_of app p"
  shows
    "(IsHealthy (HealthMonitor app) (Name sa) \<and>
      (\<forall>(ks1, ks2, clock) \<in> set calls.
          ServersForPath (Registry app) ks1 ks2 path = (p, [sa, sb], True))
      \<longrightarrow> resolve_seq app calls path =
            map (\<lambda>k. Some (Name ([sa, sb] ! ((nat (counter_of app p) + k) mod 2)))) [0..<length calls]) \<and>
     (IsHealthy (HealthMonitor app) (Name sa) \<and>
      ServersForPath (Registry app) ks1 ks2 path = (p, [sa, sb], True) \<and>
      ServersForPath (Registry app) ks1' ks2' path = (p, [sb, sa], True)
      \<longrightarrow> resolve_seq app [(ks1, ks2, clock), (ks1', ks2', clock')] path =
            [Some (Name ([sa, sb] ! (nat (counter_of app p) mod 2))),
             Some (Name ([sa, sb] ! (nat (counter_of app p) mod 2)))]) \<and>
     (\<not> IsHealthy (HealthMonitor app) (Name sa) \<and>
      (\<forall>(ks1, ks2, clock) \<in> set calls.
          ServersForPath (Registry app) ks1 ks2 path = (p, [sa, sb], True) \<or>
          ServersForPath (Registry app) ks1 ks2 path = (p, [sb, sa], True))
      \<longrightarrow> resolve_seq app calls path = replicate (length calls) (Some (Name sb)))"
proof (intro conjI impI)
  assume a: "IsHealthy (HealthMonitor app) (Name sa) \<and>
      (\<forall>(ks1, ks2, clock) \<in> set calls.
          ServersForPath (Registry app) ks1 ks2 path = (p, [sa, sb], True))"
  then have all: "\<forall>(ks1, ks2, clock) \<in> set calls.
          ServersForPath (Registry app) ks1 ks2 path = (p, [sa, sb], True)"
    and h: "IsHealthy (HealthMonitor app) (Name sa)" by simp_all
  have c: "GetBreakerState (CircuitBreaker app) (Name sa) = Closed" using assms(4) h by simp
  show "resolve_seq app calls path =
            map (\<lambda>k. Some (Name ([sa, sb] ! ((nat (counter_of app p) + k) mod 2)))) [0..<length calls]"
    by (rule resolve_seq_alternates [OF all assms(1) h assms(2) c assms(3) assms(5)])
next
  assume a: "IsHealthy (HealthMonitor app) (Name sa) \<and>
      ServersForPath (Registry app) ks1 ks2 path = (p, [sa, sb], True) \<and>
      ServersForPath (Registry app) ks1' ks2' path = (p, [sb, sa], True)"
  then have h: "IsHealthy (HealthMonitor app) (Name sa)"
    and s1: "ServersForPath (Registry app) ks1 ks2 path = (p, [sa, sb], True)"
    and s2: "ServersForPath (Registry app) ks1' ks2' path = (p, [sb, sa], True)"
    by simp_all
  have c: "GetBreakerState (CircuitBreaker app) (Name sa) = Closed" using assms(4) h by simp
  show "resolve_seq app [(ks1, ks2, clock), (ks1', ks2', clock')] path =
            [Some (Name ([sa, sb] ! (nat (counter_of app p) mod 2))),
             Some (Name ([sa, sb] ! (nat (counter_of app p) mod 2)))]"
    by (rule resolve_seq_swapped [OF s1 s2 assms(1) h assms(2) c assms(3) assms(5)])
next
  assume a: "\<not> IsHealthy (HealthMonitor app) (Name sa) \<and>
      (\<forall>(ks1, ks2, clock) \<in> set calls.
          ServersForPath (Registry app) ks1 ks2 path = (p, [sa, sb], True) \<or>
          ServersForPath (Registry app) ks1 ks2 path = (p, [sb, sa], True))"
  then have h: "\<not> IsHealthy (HealthMonitor app) (Name sa)"
    and all: "\<forall>(ks1, ks2, clock) \<in> set calls.
          ServersForPath (Registry app) ks1 ks2 path = (p, [sa, sb], True) \<or>
          ServersForPath (Registry app) ks1 ks2 path = (p, [sb, sa], True)"
    by simp_all
  show "resolve_seq app calls path = replicate (length calls) (Some (Name sb))"
    by (rule resolve_seq_unhealthy [OF all assms(1) h assms(2) assms(3)])
qed

text \<open>The example application, path \<open>/s1/x\<close>: when the second call visits the map in the
  order \<open>b\<close>, \<open>a\<close> both calls pick \<open>a\<close>; when it visits it in the order \<open>a\<close>, \<open>b\<close> again,
  the calls pick \<open>a\<close> and then \<open>b\<close>.\<close>

theorem round_robin_over_two_backends_witness:
  "resolve_seq example_app
     [([''a'', ''b''], [''a'', ''b''], \<lambda>i. 1), ([''a'', ''b''], [''b'', ''a''], \<lambda>i. 2)] ''/s1/x''
     = [Some ''a'', Some ''a''] \<and>
   resolve_seq example_app
     [([''a'', ''b''], [''a'', ''b''], \<lambda>i. 1), ([''a'', ''b''], [''a'', ''b''], \<lambda>i. 2)] ''/s1/x''
     = [Some ''a'', Some ''b'']"
proof -
  have p: "''/s1'' \<noteq> []" by simp
  have c: "0 \<le> counter_of example_app ''/s1''" by (simp add: example_state)
  have cl: "IsHealthy (HealthMonitor example_app) (Name server_a)
      \<longrightarrow> GetBreakerState (CircuitBreaker example_app) (Name server_a) = Closed"
    by (simp add: example_state)
  have s1: "ServersForPath (Registry example_app) [''a'', ''b''] [''a'', ''b''] ''/s1/x''
      = (''/s1'', [server_a, server_b], True)"
    by (rule example_sfp) simp
  have s2: "ServersForPath (Registry example_app) [''a'', ''b''] [''b'', ''a''] ''/s1/x''
      = (''/s1'', [server_b, server_a], True)"
    by (rule example_sfp) simp
  have names: "Name server_a = ''a''" "Name server_b = ''b''"
    by (simp_all add: server_a_def server_b_def)
  note t = round_robin_over_two_backends [OF p example_state(2) example_state(4) cl c]
  have swapped: "resolve_seq example_app
     [([''a'', ''b''], [''a'', ''b''], \<lambda>i. 1), ([''a'', ''b''], [''b'', ''a''], \<lambda>i. 2)] ''/s1/x''
     = [Some ''a'', Some ''a'']"
    using t [of "[]" "''/s1/x''" "[''a'', ''b'']" "[''a'', ''b'']" "[''a'', ''b'']" "[''b'', ''a'']"
        "\<lambda>i. 1" "\<lambda>i. 2"] s1 s2 example_state names
    by simp
  have stable: "resolve_seq example_app
     [([''a'', ''b''], [''a'', ''b''], \<lambda>i. 1), ([''a'', ''b''], [''a'', ''b''], \<lambda>i. 2)] ''/s1/x''
     = [Some ''a'', Some ''b'']"
    using t [of "[([''a'', ''b''], [''a'', ''b''], \<lambda>i. 1), ([''a'', ''b''], [''a'', ''b''], \<lambda>i. 2)]"
        "''/s1/x''" "[]" "[]" "[]" "[]" "\<lambda>i. 1" "\<lambda>i. 2"] s1 example_state names
    by (simp add: upt_conv_Cons)
  show ?thesis using swapped stable by simp
qed

section \<open>GET handler: what is cached\<close>

lemma example_miss: "Get (Cache example_app) ''/s1/x'' t = (None, Cache example_app)"
  by (simp add: example_app_def Get_def NewResponseCache_def)

lemma example_perform:
  "performRequest (upstream (example_env code)) =
     (if 500 \<le> code \<and> code \<le> 504 then Some \<lparr>StatusCode = code, Header = [], BodyRead = Body ''hello''\<rparr>
      else Some \<lparr>StatusCode = code, Header = [], BodyRead = Body ''hello''\<rparr>)"
  by (simp add: performRequest_def performRequest_from.simps maxRetries_def example_env_def)

lemma example_resolve:
  "ResolveBackend example_app [''a'', ''b''] [''a'', ''b''] (\<lambda>i. 1) ''/s1/x'' =
     (Inr \<lparr>Server = server_a, TargetURL = ''http://localhost:4200/x'', Prefix = ''/s1''\<rparr>,
      example_app\<lparr>CircuitBreaker := [''a'' \<mapsto> newBreaker, ''b'' \<mapsto> newBreaker],
                  roundRobinIndex := [''/s1'' \<mapsto> 1]\<rparr>)"
proof -
  have s: "ServersForPath (Registry example_app) [''a'', ''b''] [''a'', ''b''] ''/s1/x''
      = (''/s1'', [server_a, server_b], True)"
    by (rule example_sfp) simp
  have fe: "filter_eligible (HealthMonitor example_app) (CircuitBreaker example_app) (\<lambda>i. 1) 0
      [server_a, server_b] = ([server_a, server_b], [''a'' \<mapsto> newBreaker, ''b'' \<mapsto> newBreaker])"
    by (simp add: example_app_def IsHealthy_def probed_healthy_def AllowRequest_def
        NewCircuitBreakerManager_def server_a_def server_b_def newBreaker_def Let_def)
  have c: "counter_of (example_app\<lparr>CircuitBreaker := cbm\<rparr>) ''/s1'' = 0" for cbm
    by (simp add: counter_of_def example_app_def)
  have t: "BaseURL server_a @ TrimPrefix ''/s1/x'' ''/s1'' = ''http://localhost:4200/x''"
    by (simp add: TrimPrefix_def server_a_def)
  show ?thesis
    unfolding ResolveBackend_def s Let_def prod.case fe c
    by (simp add: go_rem_def t) (simp add: example_app_def)
qed

lemma example_handler:
  "HandleGetRequest example_app (example_env code) ''/s1/x'' =
     (if code = 200
      then (case Store (Cache example_app) ''/s1/x'' ''hello'' 3 of
              None \<Rightarrow> None
            | Some cache2 \<Rightarrow>
                Some (Wrote \<lparr>wStatus = code, wHeader = [], wBody = ''hello''\<rparr>,
                      example_app\<lparr>CircuitBreaker := [''a'' \<mapsto> newBreaker, ''b'' \<mapsto> newBreaker],
                                  roundRobinIndex := [''/s1'' \<mapsto> 1], Cache := cache2\<rparr>))
      else Some (Wrote \<lparr>wStatus = code, wHeader = [], wBody = ''hello''\<rparr>,
                 example_app\<lparr>CircuitBreaker :=
                     (if 500 \<le> code \<and> code \<le> 599
                      then [''a'' \<mapsto> newBreaker\<lparr>Failures := 1\<rparr>, ''b'' \<mapsto> newBreaker]
                      else [''a'' \<mapsto> newBreaker, ''b'' \<mapsto> newBreaker]),
                   roundRobinIndex := [''/s1'' \<mapsto> 1]\<rparr>))"
proof -
  have e: "now_get (example_env code) = 1" "order1 (example_env code) = [''a'', ''b'']"
    "order2 (example_env code) = [''a'', ''b'']" "resolve_clock (example_env code) = (\<lambda>i. 1)"
    "now_report (example_env code) = 2" "now_store (example_env code) = 3"
    by (simp_all add: example_env_def)
  have a: "example_app\<lparr>Cache := Cache example_app\<rparr> = example_app" by simp
  have n: "Name server_a = ''a''" by (simp add: server_a_def)
  show ?thesis
    unfolding HandleGetRequest_def example_miss e
    by (simp add: a example_resolve example_perform n OnSuccess_def OnFailure_def
        OnRequestComplete_def newBreaker_def FailuresToOpen_def Let_def fun_upd_twist
        split: option.splits)
qed

text \<open>
  C9 as stated fails for the 2xx statuses other than 200: the handler stores under the
  test \<open>resp.StatusCode == http.StatusOK\<close>. In the example application a GET of \<open>/s1/x\<close>
  answered with 204 is forwarded to the client and leaves the cache as it was, without
  an entry for the path.
\<close>

theorem get_handler_204_not_cached_counterexample:
  "cache_after (HandleGetRequest example_app (example_env 204) ''/s1/x'') = Some (Cache example_app) \<and>
   items (Cache example_app) ''/s1/x'' = None \<and>
   map_option fst (HandleGetRequest example_app (example_env 204) ''/s1/x'')
     = Some (Wrote \<lparr>wStatus = 204, wHeader = [], wBody = ''hello''\<rparr>)"
  by (simp add: example_handler cache_after_def) (simp add: example_app_def NewResponseCache_def)

lemma HandleGetRequest_no_answer:
  assumes miss: "Get (Cache app) path (now_get env) = (None, c1)"
    and fw: "forwarded app env path = None"
  shows "\<exists>out app'. HandleGetRequest app env path = Some (out, app') \<and> Cache app' = c1"
proof -
  let ?r = "ResolveBackend (app\<lparr>Cache := c1\<rparr>) (order1 env) (order2 env) (resolve_clock env) path"
  obtain res app1 where r: "?r = (res, app1)" by (cases ?r)
  have c: "Cache app1 = c1"
    using ResolveBackend_fields(1) [of "app\<lparr>Cache := c1\<rparr>" "order1 env" "order2 env" "resolve_clock env" path]
    by (simp add: r)
  show ?thesis
  proof (cases res)
    case (Inl e)
    then show ?thesis
      using miss r c by (cases e) (simp_all add: HandleGetRequest_def)
  next
    case (Inr backend)
    show ?thesis
    proof (cases "performRequest (upstream env)")
      case None
      then show ?thesis
        using miss r c Inr by (simp add: HandleGetRequest_def)
    next
      case (Some resp)
      show ?thesis
      proof (cases "BodyRead resp")
        case ReadError
        then show ?thesis
          using miss r c Inr Some by (simp add: HandleGetRequest_def Let_def)
      next
        case (Body bodyBytes)
        then have False
          using fw miss r Inr Some by (simp add: forwarded_def)
        then show ?thesis ..
      qed
    qed
  qed
qed

lemma HandleGetRequest_answer:
  assumes miss: "Get (Cache app) path (now_get env) = (None, c1)"
    and fw: "forwarded app env path = Some (status, body)"
  shows "\<exists>w app2. Cache app2 = c1 \<and> wStatus w = status \<and> wBody w = body \<and>
     HandleGetRequest app env path =
       (if status = 200
        then (case Store c1 path body (now_store env) of
                None \<Rightarrow> None
              | Some cache2 \<Rightarrow> Some (Wrote w, app2\<lparr>Cache := cache2\<rparr>))
        else Some (Wrote w, app2))"
proof -
  let ?r = "ResolveBackend (app\<lparr>Cache := c1\<rparr>) (order1 env) (order2 env) (resolve_clock env) path"
  obtain res app1 where r: "?r = (res, app1)" by (cases ?r)
  have c: "Cache app1 = c1"
    using ResolveBackend_fields(1) [of "app\<lparr>Cache := c1\<rparr>" "order1 env" "order2 env" "resolve_clock env" path]
    by (simp add: r)
  obtain backend where res: "res = Inr backend"
    using fw miss r by (cases res) (simp_all add: forwarded_def)
  obtain resp where pr: "performRequest (upstream env) = Some resp"
    using fw miss r res by (cases "performRequest (upstream env)") (simp_all add: forwarded_def)
  have b: "BodyRead resp = Body body" and st: "StatusCode resp = status"
    using fw miss r res pr by (cases "BodyRead resp"; simp add: forwarded_def)+
  let ?cbm = "OnRequestComplete
      (if 500 \<le> status \<and> status \<le> 599
       then OnFailure (CircuitBreaker app1) (Name (Server backend)) (now_report env)
       else OnSuccess (CircuitBreaker app1) (Name (Server backend)))
      (Name (Server backend))"
  let ?w = "\<lparr>wStatus = status, wHeader = Header resp, wBody = body\<rparr>"
  let ?app2 = "app1\<lparr>CircuitBreaker := ?cbm\<rparr>"
  have "HandleGetRequest app env path =
       (if status = 200
        then (case Store c1 path body (now_store env) of
                None \<Rightarrow> None
              | Some cache2 \<Rightarrow> Some (Wrote ?w, ?app2\<lparr>Cache := cache2\<rparr>))
        else Some (Wrote ?w, ?app2))"
    using miss r res pr b st c
    by (simp add: HandleGetRequest_def Let_def split: option.splits)
  moreover have "Cache ?app2 = c1" using c by simp
  moreover have "wStatus ?w = status" "wBody ?w = body" by simp_all
  ultimately show ?thesis by blast
qed

text \<open>
  C9, amended. The GET handler runs on a cache in any state reached from a new cache by
  \<open>Store\<close> and \<open>Get\<close> operations and sweeps, and the lookup of the path is a miss. Then the
  handler returns, and:
  \<^item> when it forwards an answer of the backend with status 200, it writes that status and
    body to the client and the cache it leaves behind is the one \<open>Store(path, body)\<close> gives.
    If the cost \<open>len(path) + len(body) + 64\<close> does not exceed the byte budget, the hash
    index then holds the body under the path, the entry is the most recently used one, and
    every \<open>Get\<close> of the path made up to the entry's deadline returns the body. If the cost
    exceeds the budget, the cache is left empty;
  \<^item> when it forwards an answer with any other status, the other 2xx included, or
    forwards none (no route, no eligible backend, transport failure, unreadable body), the
    cache is the one the lookup left and holds nothing under the path.
\<close>

theorem get_handler_stores_only_200:
  assumes reach: "run_ops (NewResponseCache ttl0 mb) ops = Some (Cache app)"
    and miss: "Get (Cache app) path (now_get env) = (None, c1)"
  shows "\<exists>out app'. HandleGetRequest app env path = Some (out, app') \<and>
     (case forwarded app env path of
        None \<Rightarrow> Cache app' = c1 \<and> peek (Cache app') path = None
      | Some (status, body) \<Rightarrow>
          (\<exists>w. out = Wrote w \<and> wStatus w = status \<and> wBody w = body) \<and>
          (if status = 200
           then Store c1 path body (now_store env) = Some (Cache app') \<and>
                (if approximateSize path body \<le> mb
                 then peek (Cache app') path = Some body \<and>
                      hd (recency_keys (Cache app')) = path \<and>
                      (\<forall>t. \<not> t > now_store env + ttl0 \<longrightarrow> fst (Get (Cache app') path t) = Some body)
                 else items (Cache app') = Map.empty)
           else Cache app' = c1 \<and> peek (Cache app') path = None))"
proof -
  obtain xs where R: "cache_rel (Cache app) xs"
    and m: "maxBytes (Cache app) = mb" and t: "ttl (Cache app) = ttl0"
    using reachable_rel [OF reach] by blast
  have c1: "c1 = snd (Get (Cache app) path (now_get env))" by (simp add: miss)
  obtain xs1 where R1: "cache_rel c1 xs1" and m1: "maxBytes c1 = mb" and t1: "ttl c1 = ttl0"
    using Get_refines [OF R, of path "now_get env"] m t unfolding c1 by blast
  have "items c1 path = None"
    using Get_miss_absent [OF R, of path "now_get env"] miss by simp
  then have absent: "peek c1 path = None" by (simp add: peek_def)
  show ?thesis
  proof (cases "forwarded app env path")
    case None
    obtain out app' where "HandleGetRequest app env path = Some (out, app')" "Cache app' = c1"
      using HandleGetRequest_no_answer [OF miss None] by blast
    then show ?thesis using None absent by auto
  next
    case (Some a)
    obtain status body where a: "a = (status, body)" by (cases a)
    have fw: "forwarded app env path = Some (status, body)" using Some a by simp
    obtain w app2 where h: "Cache app2 = c1" "wStatus w = status" "wBody w = body"
      "HandleGetRequest app env path =
       (if status = 200
        then (case Store c1 path body (now_store env) of
                None \<Rightarrow> None
              | Some cache2 \<Rightarrow> Some (Wrote w, app2\<lparr>Cache := cache2\<rparr>))
        else Some (Wrote w, app2))"
      using HandleGetRequest_answer [OF miss fw] by blast
    show ?thesis
    proof (cases "status = 200")
      case False
      then have "HandleGetRequest app env path = Some (Wrote w, app2)" using h(4) by simp
      then show ?thesis using fw False h(1,2,3) absent by auto
    next
      case True
      show ?thesis
      proof (cases "approximateSize path body \<le> mb")
        case fits: True
        obtain rc' where s: "Store c1 path body (now_store env) = Some rc'"
          "peek rc' path = Some body" "hd (recency_keys rc') = path"
          "\<forall>t. \<not> t > now_store env + ttl0 \<longrightarrow> fst (Get rc' path t) = Some body"
          using Store_holds [OF R1, of path body "now_store env"] fits m1 t1 by auto
        have "HandleGetRequest app env path = Some (Wrote w, app2\<lparr>Cache := rc'\<rparr>)"
          using h(4) True s(1) by simp
        then show ?thesis using fw True fits h(2,3) s by auto
      next
        case big: False
        obtain rc' where s: "Store c1 path body (now_store env) = Some rc'" "items rc' = Map.empty"
          using Store_oversized [OF R1, of path body "now_store env"] big m1 by auto
        have "HandleGetRequest app env path = Some (Wrote w, app2\<lparr>Cache := rc'\<rparr>)"
          using h(4) True s(1) by simp
        then show ?thesis using fw True big h(2,3) s by auto
      qed
    qed
  qed
qed

text \<open>The example application, whose cache is new, and a request for \<open>/s1/x\<close> that the
  backend answers with 200 and the body \<open>hello\<close> (cost 74, budget 10 MB): the handler returns,
  the index holds the body under the path, and a \<open>Get\<close> one nanosecond later returns it.\<close>

theorem get_handler_stores_only_200_witness:
  "run_ops (NewResponseCache 30000000000 10485760) [] = Some (Cache example_app) \<and>
   Get (Cache example_app) ''/s1/x'' (now_get (example_env 200)) = (None, Cache example_app) \<and>
   forwarded example_app (example_env 200) ''/s1/x'' = Some (200, ''hello'') \<and>
   approximateSize ''/s1/x'' ''hello'' = 74 \<and>
   (\<exists>out app'. HandleGetRequest example_app (example_env 200) ''/s1/x'' = Some (out, app') \<and>
      out = Wrote \<lparr>wStatus = 200, wHeader = [], wBody = ''hello''\<rparr> \<and>
      peek (Cache app') ''/s1/x'' = Some ''hello'' \<and>
      recency_keys (Cache app') = [''/s1/x''] \<and>
      fst (Get (Cache app') ''/s1/x'' 4) = Some ''hello'')"
proof -
  let ?env = "example_env 200"
  have e: "now_get ?env = 1" "order1 ?env = [''a'', ''b'']" "order2 ?env = [''a'', ''b'']"
    "resolve_clock ?env = (\<lambda>i. 1)" "now_store ?env = 3"
    by (simp_all add: example_env_def)
  have reach: "run_ops (NewResponseCache 30000000000 10485760) [] = Some (Cache example_app)"
    by (simp add: example_app_def)
  have miss: "Get (Cache example_app) ''/s1/x'' (now_get ?env) = (None, Cache example_app)"
    by (rule example_miss)
  have fw: "forwarded example_app ?env ''/s1/x'' = Some (200, ''hello'')"
    by (simp add: forwarded_def e example_miss example_resolve example_perform)
  have cost: "approximateSize ''/s1/x'' ''hello'' = 74"
    by (simp add: approximateSize_def nodeOverhead_def)
  have hr: "HandleGetRequest example_app ?env ''/s1/x'' =
      (case Store (Cache example_app) ''/s1/x'' ''hello'' 3 of
         None \<Rightarrow> None
       | Some cache2 \<Rightarrow>
           Some (Wrote \<lparr>wStatus = 200, wHeader = [], wBody = ''hello''\<rparr>,
                 example_app\<lparr>CircuitBreaker := [''a'' \<mapsto> newBreaker, ''b'' \<mapsto> newBreaker],
                             roundRobinIndex := [''/s1'' \<mapsto> 1], Cache := cache2\<rparr>))"
    by (simp add: example_handler)
  obtain out app' where r: "HandleGetRequest example_app ?env ''/s1/x'' = Some (out, app')"
    "Store (Cache example_app) ''/s1/x'' ''hello'' 3 = Some (Cache app')"
    "peek (Cache app') ''/s1/x'' = Some ''hello''"
    "\<forall>t. \<not> t > 3 + 30000000000 \<longrightarrow> fst (Get (Cache app') ''/s1/x'' t) = Some ''hello''"
    using get_handler_stores_only_200 [OF reach miss] fw cost
    by (auto simp: e)
  have out: "out = Wrote \<lparr>wStatus = 200, wHeader = [], wBody = ''hello''\<rparr>"
    using r(1,2) hr by simp
  have "map_option recency_keys (Store (Cache example_app) ''/s1/x'' ''hello'' 3) = Some [''/s1/x'']"
    by (simp add: example_app_def cache_eval evictToCapacity.simps recency_keys_def recency_list_def)
  then have keys: "recency_keys (Cache app') = [''/s1/x'']" using r(2) by simp
  have "fst (Get (Cache app') ''/s1/x'' 4) = Some ''hello''" using r(4) by simp
  then show ?thesis using reach miss fw cost r(1,3) out keys by blast
qed

end
